theory Spec2Isabelle
  imports Main "HOL-Library.Word"
begin

unbundle bit_operations_syntax

section \<open>Data model\<close>

text \<open>
  The emulator of \<^verbatim>\<open>main.go\<close>: a flat byte memory (\<^verbatim>\<open>[]byte\<close>), a register file of
  eighteen unsigned 64-bit slots (\<^verbatim>\<open>[18]uint64\<close>) and the fetch-decode-execute loop.
  Go's \<^verbatim>\<open>uint64\<close> is \<open>64 word\<close> (addition and subtraction wrap), \<^verbatim>\<open>byte\<close> is
  \<open>8 word\<close>, Go's \<^verbatim>\<open>int\<close> is \<open>int\<close>. A run-time panic of the Go program is a value
  of the type \<open>error\<close>; where the panic follows writes made in place, the error is
  paired with the state at the moment of the panic.
\<close>

type_synonym byte = "8 word"
type_synonym uint64 = "64 word"

datatype error =
    IndexOutOfRange
  | SliceBoundsOutOfRange
  | MakeLenOutOfRange
  | UnknownPrefix "byte list"
  | UnknownInstruction "byte list"

text \<open>\<^verbatim>\<open>type process struct { startAddress uint64; entryPoint uint64; bin []byte }\<close>\<close>

record process =
  startAddress :: uint64
  entryPoint :: uint64
  bin :: "byte list"

text \<open>
  \<^verbatim>\<open>type register int\<close> with the constants \<^verbatim>\<open>rax = iota\<close> ... \<^verbatim>\<open>rflags\<close>, in the order
  of their encoding value.
\<close>

type_synonym register = nat

definition rax :: register where [simp]: "rax = 0"
definition rcx :: register where [simp]: "rcx = 1"
definition rdx :: register where [simp]: "rdx = 2"
definition rbx :: register where [simp]: "rbx = 3"
definition rsp :: register where [simp]: "rsp = 4"
definition rbp :: register where [simp]: "rbp = 5"
definition rsi :: register where [simp]: "rsi = 6"
definition rdi :: register where [simp]: "rdi = 7"
definition r8 :: register where [simp]: "r8 = 8"
definition r9 :: register where [simp]: "r9 = 9"
definition r10 :: register where [simp]: "r10 = 10"
definition r11 :: register where [simp]: "r11 = 11"
definition r12 :: register where [simp]: "r12 = 12"
definition r13 :: register where [simp]: "r13 = 13"
definition r14 :: register where [simp]: "r14 = 14"
definition r15 :: register where [simp]: "r15 = 15"
definition rip :: register where [simp]: "rip = 16"
definition rflags :: register where [simp]: "rflags = 17"

text \<open>
  \<^verbatim>\<open>var registerMap = map[register]string{...}\<close>. A Go map has no iteration order; the
  entries are listed here in the order of the source text, and the resolver below takes
  the order of iteration as a parameter.
\<close>

definition registerMap :: "(register \<times> string) list" where
  "registerMap =
     [(rax, ''rax''), (rcx, ''rcx''), (rdx, ''rdx''), (rbx, ''rbx''),
      (rsp, ''rsp''), (rbp, ''rbp''), (rsi, ''rsi''), (rdi, ''rdi''),
      (r8, ''r8''), (r9, ''r9''), (r10, ''r10''), (r11, ''r11''),
      (r12, ''r12''), (r13, ''r13''), (r14, ''r14''), (r15, ''r15''),
      (rip, ''rip''), (rflags, ''rflags'')]"

text \<open>
  \<^verbatim>\<open>type registerFile [18]uint64\<close> with \<^verbatim>\<open>get\<close> (\<^verbatim>\<open>return regfile[r]\<close>) and \<^verbatim>\<open>set\<close>
  (\<^verbatim>\<open>regfile[r] = v\<close>). The array has eighteen slots whatever its contents, so it is a
  function on the indices, and indexing it at 18 or beyond panics.
\<close>

type_synonym registerFile = "register \<Rightarrow> uint64"

definition regfile_get :: "registerFile \<Rightarrow> register \<Rightarrow> error + uint64" where
  "regfile_get rf r = (if r < 18 then Inr (rf r) else Inl IndexOutOfRange)"

definition regfile_set :: "registerFile \<Rightarrow> register \<Rightarrow> uint64 \<Rightarrow> error + registerFile" where
  "regfile_set rf r v = (if r < 18 then Inr (rf(r := v)) else Inl IndexOutOfRange)"

text \<open>
  \<^verbatim>\<open>type cpu struct { proc *process; mem []byte; regfile *registerFile; tick chan bool }\<close>.
  The channel \<^verbatim>\<open>tick\<close> is not a field of the model: the loop below takes the number of
  signals that the controller delivers on it.
\<close>

record cpu =
  proc :: "process option"
  mem :: "byte list"
  regfile :: registerFile

text \<open>
  The length and the capacity of a Go slice are of type \<^verbatim>\<open>int\<close>, 64 bits wide here: no
  slice is longer than \<open>maxInt\<close>, and an index above \<open>maxInt\<close> is out of range for every
  slice.
\<close>

definition maxInt :: nat where
  "maxInt = 2 ^ 63 - 1"

text \<open>
  \<^verbatim>\<open>func newCPU(memory uint64) cpu\<close>: \<^verbatim>\<open>make([]byte, memory)\<close> panics when the length
  does not fit \<^verbatim>\<open>int\<close>; the memory and the register file start zeroed.
\<close>

definition newCPU :: "uint64 \<Rightarrow> error + cpu" where
  "newCPU memory =
     (if unat memory \<le> maxInt
      then Inr \<lparr>proc = None, mem = replicate (unat memory) 0, regfile = (\<lambda>r. 0)\<rparr>
      else Inl MakeLenOutOfRange)"

subsection \<open>Indexing and slicing the memory\<close>

text \<open>
  The index expression \<^verbatim>\<open>s[x]\<close> with \<^verbatim>\<open>x\<close> of type \<^verbatim>\<open>uint64\<close> panics unless
  \<^verbatim>\<open>0 <= x < len(s)\<close>; the slice expression \<^verbatim>\<open>s[lo:hi]\<close> panics unless
  \<^verbatim>\<open>0 <= lo <= hi <= cap(s)\<close>. The memory is made with its capacity equal to its length.
\<close>

definition inRange :: "byte list \<Rightarrow> uint64 \<Rightarrow> bool" where
  "inRange s x \<longleftrightarrow> unat x < length s \<and> unat x \<le> maxInt"

definition slice :: "byte list \<Rightarrow> uint64 \<Rightarrow> uint64 \<Rightarrow> error + byte list" where
  "slice s lo hi =
     (if unat lo \<le> unat hi \<and> unat hi \<le> length s \<and> unat hi \<le> maxInt
      then Inr (take (unat hi - unat lo) (drop (unat lo) s))
      else Inl SliceBoundsOutOfRange)"

subsection \<open>The byte codec\<close>

text \<open>
  \<^verbatim>\<open>func readBytes(from []byte, start uint64, bytes int) uint64\<close>: the loop
  \<^verbatim>\<open>for i := 0; i < bytes; i++ { val |= uint64(from[start+uint64(i)]) << (8 * i) }\<close>.
  The index \<^verbatim>\<open>start+uint64(i)\<close> is computed in \<^verbatim>\<open>uint64\<close> (it wraps). A shift by 64
  or more gives 0 in Go, as \<open>push_bit\<close> does on \<open>64 word\<close>. The count \<^verbatim>\<open>8 * i\<close> is an
  \<^verbatim>\<open>int\<close>; iteration \<open>i\<close> is reached after \<open>i\<close> indices in range, so the product stays
  far from overflow on any memory below \<open>2 ^ 60\<close> bytes.
\<close>

function readBytes_loop :: "byte list \<Rightarrow> uint64 \<Rightarrow> int \<Rightarrow> int \<Rightarrow> uint64 \<Rightarrow> error + uint64" where
  "readBytes_loop frm start bytes i val =
     (if i < bytes then
        (if inRange frm (start + word_of_int i)
         then readBytes_loop frm start bytes (i + 1)
                (val OR push_bit (nat (8 * i)) (ucast (frm ! unat (start + word_of_int i))))
         else Inl IndexOutOfRange)
      else Inr val)"
  by pat_completeness auto
termination
  by (relation "measure (\<lambda>(frm, start, bytes, i, val). nat (bytes - i))") auto

definition readBytes :: "byte list \<Rightarrow> uint64 \<Rightarrow> int \<Rightarrow> error + uint64" where
  "readBytes frm start bytes = readBytes_loop frm start bytes 0 0"

text \<open>
  \<^verbatim>\<open>func writeBytes(to []byte, start uint64, bytes int, val uint64)\<close>: the loop
  \<^verbatim>\<open>for i := 0; i < bytes; i++ { to[start+uint64(i)] = byte(val >> (8 * i) & 0xFF) }\<close>.
  The slice is written in place, so a panic in the middle leaves the bytes already
  written: the error carries the memory at the moment of the panic.
\<close>

function writeBytes_loop ::
  "byte list \<Rightarrow> uint64 \<Rightarrow> int \<Rightarrow> uint64 \<Rightarrow> int \<Rightarrow> (error \<times> byte list) + byte list" where
  "writeBytes_loop to start bytes val i =
     (if i < bytes then
        (if inRange to (start + word_of_int i)
         then writeBytes_loop
                (to[unat (start + word_of_int i) := ucast (drop_bit (nat (8 * i)) val AND 0xFF)])
                start bytes val (i + 1)
         else Inl (IndexOutOfRange, to))
      else Inr to)"
  by pat_completeness auto
termination
  by (relation "measure (\<lambda>(to, start, bytes, val, i). nat (bytes - i))") auto

definition writeBytes ::
  "byte list \<Rightarrow> uint64 \<Rightarrow> int \<Rightarrow> uint64 \<Rightarrow> (error \<times> byte list) + byte list" where
  "writeBytes to start bytes val = writeBytes_loop to start bytes val 0"

subsection \<open>The engine\<close>

text \<open>\<^verbatim>\<open>var prefixBytes = []byte{0x48, 0x66}\<close>\<close>

definition prefixBytes :: "byte list" where
  "prefixBytes = [0x48, 0x66]"

text \<open>
  Fetch and prefix scan (lines 177 to 205 of \<^verbatim>\<open>cpu.loop\<close>): \<^verbatim>\<open>inb1 := c.mem[ip]\<close>, then
  while \<^verbatim>\<open>inb1\<close> is one of \<^verbatim>\<open>prefixBytes\<close> the width is set from it, \<^verbatim>\<open>ip++\<close> and
  \<^verbatim>\<open>inb1 = c.mem[ip]\<close>. Each call reads the byte at \<^verbatim>\<open>ip\<close>; the result is the local
  \<^verbatim>\<open>ip\<close>, the opcode byte and \<^verbatim>\<open>widthPrefix\<close> at the exit of the scan. The branch
  \<^verbatim>\<open>panic("Unknown prefix instruction")\<close> follows \<^verbatim>\<open>hbdebug("prog", c.mem[ip:ip+10])\<close>,
  whose slice expression panics first when it is out of bounds.
\<close>

function prefixScan :: "byte list \<Rightarrow> uint64 \<Rightarrow> int \<Rightarrow> error + (uint64 \<times> byte \<times> int)" where
  "prefixScan m ip widthPrefix =
     (if inRange m ip then
        (if m ! unat ip \<in> set prefixBytes then
           (if m ! unat ip = 0x48 then prefixScan m (ip + 1) 64
            else if m ! unat ip = 0x66 then prefixScan m (ip + 1) 16
            else (case slice m ip (ip + 10) of
                    Inl e \<Rightarrow> Inl e
                  | Inr bs \<Rightarrow> Inl (UnknownPrefix bs)))
         else Inr (ip, m ! unat ip, widthPrefix))
      else Inl IndexOutOfRange)"
  by pat_completeness auto
termination
proof (relation "measure (\<lambda>(m, ip, widthPrefix). length m - unat ip)")
  show "wf (measure (\<lambda>(m, ip, widthPrefix). length m - unat ip))"
    by simp
next
  fix m :: "byte list" and ip :: uint64 and widthPrefix :: int
  assume "inRange m ip"
  then have "unat ip < length m" and "unat ip + 1 < 2 ^ 64"
    by (simp_all add: inRange_def maxInt_def)
  then have "unat (ip + 1) = unat ip + 1" and "unat ip < length m"
    by (simp_all add: unat_word_ariths)
  then show "((m, ip + 1, 64), (m, ip, widthPrefix))
        \<in> measure (\<lambda>(m, ip, widthPrefix). length m - unat ip)"
    and "((m, ip + 1, 16), (m, ip, widthPrefix))
        \<in> measure (\<lambda>(m, ip, widthPrefix). length m - unat ip)"
    by simp_all
qed

text \<open>
  The instructions. Each definition is one branch of the \<^verbatim>\<open>if\<close> chain of \<^verbatim>\<open>cpu.loop\<close>
  (lines 207 to 237); \<^verbatim>\<open>register(x)\<close> of a byte is its value as an index.
\<close>

definition push :: "cpu \<Rightarrow> byte \<Rightarrow> (error \<times> cpu) + cpu" where
  "push c inb1 =
     (case regfile_get (regfile c) (unat (inb1 - 0x50)) of
        Inl e \<Rightarrow> Inl (e, c)
      | Inr regvalue \<Rightarrow>
     (case regfile_get (regfile c) rsp of
        Inl e \<Rightarrow> Inl (e, c)
      | Inr sp \<Rightarrow>
     (case writeBytes (mem c) (sp - 8) 8 regvalue of
        Inl (e, m) \<Rightarrow> Inl (e, c\<lparr>mem := m\<rparr>)
      | Inr m \<Rightarrow>
     (case regfile_set (regfile c) rsp (sp - 8) of
        Inl e \<Rightarrow> Inl (e, c\<lparr>mem := m\<rparr>)
      | Inr rf \<Rightarrow> Inr (c\<lparr>mem := m, regfile := rf\<rparr>)))))"

definition pop :: "cpu \<Rightarrow> byte \<Rightarrow> (error \<times> cpu) + cpu" where
  "pop c inb1 =
     (let lhs = unat (inb1 - 0x58) in
      case regfile_get (regfile c) rsp of
        Inl e \<Rightarrow> Inl (e, c)
      | Inr sp \<Rightarrow>
     (case readBytes (mem c) sp 8 of
        Inl e \<Rightarrow> Inl (e, c)
      | Inr v \<Rightarrow>
     (case regfile_set (regfile c) lhs v of
        Inl e \<Rightarrow> Inl (e, c)
      | Inr rf \<Rightarrow>
     (case regfile_set rf rsp (sp + 8) of
        Inl e \<Rightarrow> Inl (e, c\<lparr>regfile := rf\<rparr>)
      | Inr rf' \<Rightarrow> Inr (c\<lparr>regfile := rf'\<rparr>)))))"

text \<open>
  \<^verbatim>\<open>mov r/m, r\<close> (opcode 0x89): \<^verbatim>\<open>ip++\<close>, the second byte pairs two registers. The
  result carries the local \<^verbatim>\<open>ip\<close>.
\<close>

definition movRegReg :: "cpu \<Rightarrow> uint64 \<Rightarrow> (error \<times> cpu) + (cpu \<times> uint64)" where
  "movRegReg c ip =
     (if inRange (mem c) (ip + 1) then
        (let inb2 = mem c ! unat (ip + 1);
             rhs = unat (drop_bit 3 (inb2 AND 0x38));
             lhs = unat (inb2 AND 7) in
         case regfile_get (regfile c) rhs of
           Inl e \<Rightarrow> Inl (e, c)
         | Inr v \<Rightarrow>
        (case regfile_set (regfile c) lhs v of
           Inl e \<Rightarrow> Inl (e, c)
         | Inr rf \<Rightarrow> Inr (c\<lparr>regfile := rf\<rparr>, ip + 1)))
      else Inl (IndexOutOfRange, c))"

text \<open>
  \<^verbatim>\<open>mov r, imm\<close> (opcodes 0xB8 to 0xBF): \<^verbatim>\<open>widthPrefix/8\<close> immediate bytes are read
  after the opcode and \<^verbatim>\<open>ip\<close> moves past them.
\<close>

definition movImm :: "cpu \<Rightarrow> uint64 \<Rightarrow> byte \<Rightarrow> int \<Rightarrow> (error \<times> cpu) + (cpu \<times> uint64)" where
  "movImm c ip inb1 widthPrefix =
     (let lreg = unat (inb1 - 0xB8) in
      case readBytes (mem c) (ip + 1) (widthPrefix div 8) of
        Inl e \<Rightarrow> Inl (e, c)
      | Inr val \<Rightarrow>
     (case regfile_set (regfile c) lreg val of
        Inl e \<Rightarrow> Inl (e, c)
      | Inr rf \<Rightarrow> Inr (c\<lparr>regfile := rf\<rparr>, ip + word_of_int (widthPrefix div 8))))"

definition ret :: "cpu \<Rightarrow> (error \<times> cpu) + cpu" where
  "ret c =
     (case regfile_get (regfile c) rsp of
        Inl e \<Rightarrow> Inl (e, c)
      | Inr sp \<Rightarrow>
     (case readBytes (mem c) sp 8 of
        Inl e \<Rightarrow> Inl (e, c)
      | Inr retAddress \<Rightarrow>
     (case regfile_set (regfile c) rsp (sp + 8) of
        Inl e \<Rightarrow> Inl (e, c)
      | Inr rf \<Rightarrow>
     (case regfile_set rf rip retAddress of
        Inl e \<Rightarrow> Inl (e, c\<lparr>regfile := rf\<rparr>)
      | Inr rf' \<Rightarrow> Inr (c\<lparr>regfile := rf'\<rparr>)))))"

text \<open>
  The last branch: \<^verbatim>\<open>hbdebug("prog", c.mem[ip:ip+10])\<close> prints the ten bytes at the
  faulting address, then \<^verbatim>\<open>panic("Unknown instruction")\<close>. The printed bytes are the
  argument of the error.
\<close>

definition unknownInstruction :: "cpu \<Rightarrow> uint64 \<Rightarrow> (error \<times> cpu) + cpu" where
  "unknownInstruction c ip =
     (case slice (mem c) ip (ip + 10) of
        Inl e \<Rightarrow> Inl (e, c)
      | Inr bs \<Rightarrow> Inl (UnknownInstruction bs, c))"

text \<open>\<^verbatim>\<open>c.regfile.set(rip, ip+1)\<close>, line 240: the advance after every instruction but \<^verbatim>\<open>ret\<close>.\<close>

definition advance :: "cpu \<Rightarrow> uint64 \<Rightarrow> (error \<times> cpu) + cpu" where
  "advance c ip =
     (case regfile_set (regfile c) rip (ip + 1) of
        Inl e \<Rightarrow> Inl (e, c)
      | Inr rf \<Rightarrow> Inr (c\<lparr>regfile := rf\<rparr>))"

text \<open>
  The body of the loop after the test for the return address, from the value \<^verbatim>\<open>ip\<close>
  read at line 172: \<open>Inr\<close> is the state at the next iteration, \<open>Inl\<close> a panic with the
  state it leaves.
\<close>

definition step :: "cpu \<Rightarrow> uint64 \<Rightarrow> (error \<times> cpu) + cpu" where
  "step c ip0 =
     (case prefixScan (mem c) ip0 32 of
        Inl e \<Rightarrow> Inl (e, c)
      | Inr (ip, inb1, widthPrefix) \<Rightarrow>
          if 0x50 \<le> inb1 \<and> inb1 < 0x58 then
            (case push c inb1 of Inl ec \<Rightarrow> Inl ec | Inr c' \<Rightarrow> advance c' ip)
          else if 0x58 \<le> inb1 \<and> inb1 < 0x60 then
            (case pop c inb1 of Inl ec \<Rightarrow> Inl ec | Inr c' \<Rightarrow> advance c' ip)
          else if inb1 = 0x89 then
            (case movRegReg c ip of Inl ec \<Rightarrow> Inl ec | Inr (c', ip') \<Rightarrow> advance c' ip')
          else if 0xB8 \<le> inb1 \<and> inb1 < 0xC0 then
            (case movImm c ip inb1 widthPrefix of
               Inl ec \<Rightarrow> Inl ec
             | Inr (c', ip') \<Rightarrow> advance c' ip')
          else if inb1 = 0xC3 then ret c
          else unknownInstruction c ip)"

text \<open>
  One engine step: \<^verbatim>\<open>ip := c.regfile.get(rip)\<close> and the body of the loop.
\<close>

definition exec :: "cpu \<Rightarrow> (error \<times> cpu) + cpu" where
  "exec c =
     (case regfile_get (regfile c) rip of
        Inl e \<Rightarrow> Inl (e, c)
      | Inr ip \<Rightarrow> step c ip)"

text \<open>
  \<^verbatim>\<open>func (c *cpu) loop(entryReturnAddress uint64)\<close>. Every iteration starts with
  \<^verbatim>\<open><-c.tick\<close>: the first argument is the number of signals the controller sends, and
  the loop waits for ever once they are used up. The loop ends by \<^verbatim>\<open>break\<close> when
  \<^verbatim>\<open>rip\<close> is the return address of the entry function, or by a panic.
\<close>

datatype loop_result = Break cpu | Panicked error cpu | Waiting cpu

fun loop :: "nat \<Rightarrow> cpu \<Rightarrow> uint64 \<Rightarrow> loop_result" where
  "loop 0 c entryReturnAddress = Waiting c"
| "loop (Suc ticks) c entryReturnAddress =
     (case regfile_get (regfile c) rip of
        Inl e \<Rightarrow> Panicked e c
      | Inr ip \<Rightarrow>
          if ip = entryReturnAddress then Break c
          else (case step c ip of
                  Inl (e, c') \<Rightarrow> Panicked e c'
                | Inr c' \<Rightarrow> loop ticks c' entryReturnAddress))"

text \<open>
  \<^verbatim>\<open>func (c *cpu) run(proc *process)\<close>, lines 245 to 249: the image is copied to its
  start address, \<^verbatim>\<open>rip\<close> is set to the entry point, and the address of the top of the
  stack is written at the top of the stack as the return address of the entry function.
  \<^verbatim>\<open>copy\<close> moves as many bytes as the shorter of its two arguments has.
\<close>

definition bootstrap :: "cpu \<Rightarrow> process \<Rightarrow> (error \<times> cpu) + (cpu \<times> uint64)" where
  "bootstrap c p =
     (let lo = startAddress p; hi = startAddress p + word_of_nat (length (bin p)) in
      case slice (mem c) lo hi of
        Inl e \<Rightarrow> Inl (e, c)
      | Inr dst \<Rightarrow>
     (let n = min (length dst) (length (bin p));
          m1 = take (unat lo) (mem c) @ take n (bin p) @ drop (unat lo + n) (mem c) in
      case regfile_set (regfile c) rip (entryPoint p) of
        Inl e \<Rightarrow> Inl (e, c\<lparr>mem := m1\<rparr>)
      | Inr rf1 \<Rightarrow>
     (let initialStackPointer = (word_of_int (int (length (mem c)) - 8) :: uint64) in
      case writeBytes m1 initialStackPointer 8 initialStackPointer of
        Inl (e, m2) \<Rightarrow> Inl (e, c\<lparr>mem := m2, regfile := rf1\<rparr>)
      | Inr m2 \<Rightarrow>
     (case regfile_set rf1 rsp initialStackPointer of
        Inl e \<Rightarrow> Inl (e, c\<lparr>mem := m2, regfile := rf1\<rparr>)
      | Inr rf2 \<Rightarrow> Inr (c\<lparr>mem := m2, regfile := rf2\<rparr>, initialStackPointer)))))"

text \<open>
  The whole of \<^verbatim>\<open>run\<close>: after the loop, \<^verbatim>\<open>os.Exit(int(c.regfile.get(rax)))\<close>. The
  conversion of a \<^verbatim>\<open>uint64\<close> to \<^verbatim>\<open>int\<close> reads the same bits as a signed number.
\<close>

datatype outcome = Exit int | Panic error cpu | Blocked cpu

definition run :: "nat \<Rightarrow> cpu \<Rightarrow> process \<Rightarrow> outcome" where
  "run ticks c p =
     (case bootstrap c p of
        Inl (e, c') \<Rightarrow> Panic e c'
      | Inr (c1, initialStackPointer) \<Rightarrow>
     (case loop ticks c1 initialStackPointer of
        Panicked e c' \<Rightarrow> Panic e c'
      | Waiting c' \<Rightarrow> Blocked c'
      | Break c' \<Rightarrow>
     (case regfile_get (regfile c') rax of
        Inl e \<Rightarrow> Panic e c'
      | Inr v \<Rightarrow> Exit (sint v))))"

subsection \<open>The debugger's value resolver\<close>

text \<open>
  Modelled from the Go standard library, which is not part of the repository:
  \<^verbatim>\<open>strconv.ParseUint(s, base, 64)\<close>, which \<^verbatim>\<open>resolveDebuggerValue\<close> calls with the
  bases 16 and 10. The empty string is a syntax error; every byte of the string must be
  a digit below the base (letters in either case, found with
  \<^verbatim>\<open>lower(c) = c | ('x' - 'X')\<close>; no sign, no underscore and no base prefix for an
  explicit base); a value that does not fit 64 bits is a range error, returned with the
  largest value. The function returns a value and an error; of the error (a
  \<^verbatim>\<open>*NumError\<close>) the model keeps the kind, \<^verbatim>\<open>ErrSyntax\<close> or \<^verbatim>\<open>ErrRange\<close>. Bases
  outside 2 to 36 are refused (base 0, which the emulator never passes, is not
  modelled).
\<close>

datatype parse_error = ErrSyntax | ErrRange | ErrBase

definition digit :: "byte \<Rightarrow> byte option" where
  "digit c =
     (if 0x30 \<le> c \<and> c \<le> 0x39 then Some (c - 0x30)
      else if 0x61 \<le> (c OR 0x20) \<and> (c OR 0x20) \<le> 0x7A then Some ((c OR 0x20) - 0x61 + 10)
      else None)"

definition maxVal :: uint64 where
  "maxVal = push_bit 64 1 - 1"

definition cutoff :: "nat \<Rightarrow> uint64" where
  "cutoff base = (- 1) div word_of_nat base + 1"

fun parseDigits :: "nat \<Rightarrow> string \<Rightarrow> uint64 \<Rightarrow> uint64 \<times> parse_error option" where
  "parseDigits base [] n = (n, None)"
| "parseDigits base (c # cs) n =
     (case digit (of_char c) of
        None \<Rightarrow> (0, Some ErrSyntax)
      | Some d \<Rightarrow>
          if base \<le> unat d then (0, Some ErrSyntax)
          else if cutoff base \<le> n then (maxVal, Some ErrRange)
          else if n * word_of_nat base + ucast d < n * word_of_nat base
                  \<or> maxVal < n * word_of_nat base + ucast d
               then (maxVal, Some ErrRange)
          else parseDigits base cs (n * word_of_nat base + ucast d))"

definition ParseUint :: "string \<Rightarrow> nat \<Rightarrow> uint64 \<times> parse_error option" where
  "ParseUint s base =
     (if s = [] then (0, Some ErrSyntax)
      else if 2 \<le> base \<and> base \<le> 36 then parseDigits base s 0
      else (0, Some ErrBase))"

text \<open>
  \<^verbatim>\<open>for reg, val := range registerMap { if val == dval { return c.regfile.get(reg), nil } }\<close>:
  the first entry, in the order of iteration, whose name is the token.
\<close>

fun lookupRegister :: "(register \<times> string) list \<Rightarrow> string \<Rightarrow> register option" where
  "lookupRegister [] dval = None"
| "lookupRegister ((reg, val) # rest) dval =
     (if val = dval then Some reg else lookupRegister rest dval)"

text \<open>
  \<^verbatim>\<open>func (c *cpu) resolveDebuggerValue(dval string) (uint64, error)\<close>, for an order of
  iteration over the map. The method has a pointer receiver: the result is paired with
  the cpu it leaves. \<open>Inl\<close> is a panic, \<open>Inr\<close> the two values returned.
\<close>

definition resolveDebuggerValue_order ::
  "(register \<times> string) list \<Rightarrow> cpu \<Rightarrow> string \<Rightarrow> (error + uint64 \<times> parse_error option) \<times> cpu" where
  "resolveDebuggerValue_order order c dval =
     (case lookupRegister order dval of
        Some reg \<Rightarrow>
          (case regfile_get (regfile c) reg of
             Inl e \<Rightarrow> (Inl e, c)
           | Inr v \<Rightarrow> (Inr (v, None), c))
      | None \<Rightarrow>
          if 2 < length dval \<and> (take 2 dval = ''0x'' \<or> take 2 dval = ''0X'')
          then (Inr (ParseUint (drop 2 dval) 16), c)
          else (Inr (ParseUint dval 10), c))"

definition resolveDebuggerValue ::
  "cpu \<Rightarrow> string \<Rightarrow> (error + uint64 \<times> parse_error option) \<times> cpu" where
  "resolveDebuggerValue c dval = resolveDebuggerValue_order registerMap c dval"

subsection \<open>Specification: little-endian values\<close>

text \<open>
  The number that a sequence of bytes denotes when it is read little-endian, first byte
  least significant, truncated to 64 bits. It is the specification's reading of the
  codec, against which \<open>readBytes\<close> is compared.
\<close>

fun littleEndian :: "byte list \<Rightarrow> uint64" where
  "littleEndian [] = 0"
| "littleEndian (b # bs) = ucast b OR push_bit 8 (littleEndian bs)"

subsection \<open>Specification: numerals\<close>

text \<open>
  What it means for a token to be a numeral, stated on character codes and natural
  numbers, apart from the parser: the value of the digit with a given character code
  (\<open>0\<close> to \<open>9\<close>, then the letters in either case from 10 on), and the value of a string
  of digits of a base, most significant digit first. \<open>denotes base s v\<close> says that \<open>s\<close> is a non-empty string of
  digits of the base with value \<open>v\<close>.
\<close>

definition digitValue :: "nat \<Rightarrow> nat option" where
  "digitValue k =
     (if 48 \<le> k \<and> k \<le> 57 then Some (k - 48)
      else if 97 \<le> k \<and> k \<le> 122 then Some (k - 87)
      else if 65 \<le> k \<and> k \<le> 90 then Some (k - 55)
      else None)"

fun numeralValue :: "nat \<Rightarrow> string \<Rightarrow> nat \<Rightarrow> nat option" where
  "numeralValue base [] a = Some a"
| "numeralValue base (c # cs) a =
     (case digitValue (of_char c) of
        None \<Rightarrow> None
      | Some d \<Rightarrow> if d < base then numeralValue base cs (a * base + d) else None)"

definition denotes :: "nat \<Rightarrow> string \<Rightarrow> nat \<Rightarrow> bool" where
  "denotes base s v \<longleftrightarrow> s \<noteq> [] \<and> numeralValue base s 0 = Some v"

subsection \<open>Reachable states\<close>

text \<open>
  The states of a run: a cpu as \<open>newCPU\<close> makes it, the state after the bootstrap of
  any image, and the state after any engine step, also the one a panic leaves.
\<close>

inductive reachable :: "cpu \<Rightarrow> bool" where
  fresh: "newCPU memory = Inr c \<Longrightarrow> reachable c"
| boot: "reachable c \<Longrightarrow> bootstrap c p = Inr (c', sp) \<Longrightarrow> reachable c'"
| boot_panic: "reachable c \<Longrightarrow> bootstrap c p = Inl (e, c') \<Longrightarrow> reachable c'"
| next_step: "reachable c \<Longrightarrow> exec c = Inr c' \<Longrightarrow> reachable c'"
| step_panic: "reachable c \<Longrightarrow> exec c = Inl (e, c') \<Longrightarrow> reachable c'"

section \<open>The byte codec: bounds and round trip\<close>

declare readBytes_loop.simps [simp del] writeBytes_loop.simps [simp del] prefixScan.simps [simp del]

lemma inRange_iff:
  "length s \<le> maxInt \<Longrightarrow> inRange s x \<longleftrightarrow> unat x < length s"
  by (auto simp: inRange_def)

lemma unat_index:
  assumes "0 \<le> i" "unat start + nat i < 2 ^ 64"
  shows "unat ((start :: uint64) + word_of_int i) = unat start + nat i"
proof -
  have a: "(word_of_int i :: uint64) = of_nat (nat i)"
    using assms(1) by simp
  have b: "unat (of_nat (nat i) :: uint64) = nat i"
    using assms(2) by (simp add: unat_of_nat take_bit_nat_eq_self)
  show ?thesis
    using assms(2) unfolding a by (simp add: unat_word_ariths b)
qed

lemma byte_trunc: "(ucast ((x :: uint64) AND 0xFF) :: byte) = ucast x"
proof -
  have "(0xFF :: uint64) = mask 8" by (simp add: mask_eq_exp_minus_1)
  then show ?thesis by (simp add: bit_eq_iff bit_simps)
qed

lemma divmod_window:
  "8 * j \<le> n \<Longrightarrow> n < 8 * j + 8 \<Longrightarrow> n div 8 = j \<and> n mod 8 = n - 8 * (j :: nat)"
  by (auto simp: div_nat_eqI mod_nat_eqI algebra_simps)

text \<open>
  A write that stays inside the memory succeeds, keeps the length, stores byte \<open>k\<close> of
  the value at \<open>start + k\<close> and leaves every other byte.
\<close>

lemma writeBytes_loop_ok:
  "0 \<le> i \<Longrightarrow> unat start + nat bytes \<le> length to \<Longrightarrow> length to \<le> maxInt \<Longrightarrow>
   \<exists>to'. writeBytes_loop to start bytes val i = Inr to' \<and> length to' = length to \<and>
     (\<forall>k. to' ! k = (if unat start + nat i \<le> k \<and> k < unat start + nat bytes
                      then ucast (drop_bit (8 * (k - unat start)) val) else to ! k))"
proof (induction to start bytes val i rule: writeBytes_loop.induct)
  case (1 to start bytes val i)
  show ?case
  proof (cases "i < bytes")
    case False
    then have "\<not> (unat start + nat i \<le> k \<and> k < unat start + nat bytes)" for k
      by arith
    with False show ?thesis
      by (auto simp add: writeBytes_loop.simps [of to start bytes val i])
  next
    case True
    have idx: "unat (start + word_of_int i) = unat start + nat i"
      using 1(2,3,4) True by (intro unat_index) (auto simp: maxInt_def)
    have inr: "inRange to (start + word_of_int i)"
      using idx 1(2,3,4) True by (auto simp: inRange_iff)
    let ?to = "to[unat (start + word_of_int i) := ucast (drop_bit (nat (8 * i)) val AND 0xFF)]"
    from "1.IH" [OF True inr] 1(2,3,4)
    obtain to' where w: "writeBytes_loop ?to start bytes val (i + 1) = Inr to'"
      and l: "length to' = length to"
      and c: "\<forall>k. to' ! k = (if unat start + nat (i + 1) \<le> k \<and> k < unat start + nat bytes
                      then ucast (drop_bit (8 * (k - unat start)) val) else ?to ! k)"
      by auto
    have "to' ! k = (if unat start + nat i \<le> k \<and> k < unat start + nat bytes
                      then ucast (drop_bit (8 * (k - unat start)) val) else to ! k)" for k
    proof (cases "k = unat start + nat i")
      case True
      then show ?thesis
        using c [rule_format, of k] idx inr \<open>i < bytes\<close> 1(2)
        by (simp add: byte_trunc nat_mult_distrib inRange_def)
    next
      case False
      then show ?thesis
        using c [rule_format, of k] idx 1(2)
        by (auto simp: nat_add_distrib)
    qed
    with w l True inr show ?thesis
      by (simp add: writeBytes_loop.simps [of to start bytes val i])
  qed
qed

text \<open>
  A read that stays inside the memory succeeds; bit \<open>n\<close> of its result is bit
  \<open>n mod 8\<close> of the byte at \<open>start + n div 8\<close>.
\<close>

lemma readBytes_loop_ok:
  "0 \<le> i \<Longrightarrow> unat start + nat bytes \<le> length frm \<Longrightarrow> length frm \<le> maxInt \<Longrightarrow>
   \<exists>r. readBytes_loop frm start bytes i val = Inr r \<and>
     (\<forall>n. bit r n \<longleftrightarrow> bit val n \<or>
        (n < 64 \<and> 8 * nat i \<le> n \<and> n < 8 * nat bytes \<and>
         bit (frm ! (unat start + n div 8)) (n mod 8)))"
proof (induction frm start bytes i val rule: readBytes_loop.induct)
  case (1 frm start bytes i val)
  show ?case
  proof (cases "i < bytes")
    case False
    then have "nat bytes \<le> nat i" by simp
    with False show ?thesis
      by (auto simp add: readBytes_loop.simps [of frm start bytes i val])
  next
    case True
    have idx: "unat (start + word_of_int i) = unat start + nat i"
      using 1(2,3,4) True by (intro unat_index) (auto simp: maxInt_def)
    have inr: "inRange frm (start + word_of_int i)"
      using idx 1(2,3,4) True by (auto simp: inRange_iff)
    let ?val = "val OR push_bit (nat (8 * i)) (ucast (frm ! unat (start + word_of_int i)))"
    from "1.IH" [OF True inr] 1(2,3,4)
    obtain r where w: "readBytes_loop frm start bytes (i + 1) ?val = Inr r"
      and c: "\<forall>n. bit r n \<longleftrightarrow> bit ?val n \<or>
        (n < 64 \<and> 8 * nat (i + 1) \<le> n \<and> n < 8 * nat bytes \<and>
         bit (frm ! (unat start + n div 8)) (n mod 8))"
      by auto
    have "bit r n \<longleftrightarrow> bit val n \<or>
        (n < 64 \<and> 8 * nat i \<le> n \<and> n < 8 * nat bytes \<and>
         bit (frm ! (unat start + n div 8)) (n mod 8))" for n
    proof -
      have s: "bit (push_bit (nat (8 * i)) (ucast (frm ! (unat start + nat i)) :: uint64)) n \<longleftrightarrow>
            n < 64 \<and> 8 * nat i \<le> n \<and> n < 8 * nat (i + 1) \<and>
            bit (frm ! (unat start + n div 8)) (n mod 8)"
      proof (cases "8 * nat i \<le> n \<and> n < 8 * nat (i + 1)")
        case True
        then have "8 * nat i \<le> n \<and> n < 8 * nat i + 8"
          using 1(2) by (simp add: nat_add_distrib)
        then have d: "n div 8 = nat i" and m: "n mod 8 = n - 8 * nat i"
          using divmod_window [of "nat i" n] by simp_all
        show ?thesis using True 1(2) unfolding d
          by (auto simp: bit_simps nat_mult_distrib m)
      next
        case False
        then show ?thesis using 1(2)
          by (auto simp: bit_simps nat_mult_distrib nat_add_distrib dest: bit_imp_le_length)
      qed
      show ?thesis
        using c [rule_format, of n] s True 1(2) unfolding idx bit_or_iff
        by (auto simp: nat_add_distrib)
    qed
    with w True inr show ?thesis
      by (simp add: readBytes_loop.simps [of frm start bytes i val])
  qed
qed

lemma writeBytes_ok:
  assumes "0 \<le> w" "unat a + nat w \<le> length m" "length m \<le> maxInt"
  shows "\<exists>m'. writeBytes m a w v = Inr m' \<and> length m' = length m \<and>
     (\<forall>k. m' ! k = (if unat a \<le> k \<and> k < unat a + nat w
                     then ucast (drop_bit (8 * (k - unat a)) v) else m ! k))"
  using writeBytes_loop_ok [of 0 a w m v] assms by (simp add: writeBytes_def)

lemma readBytes_ok:
  assumes "0 \<le> w" "unat a + nat w \<le> length m" "length m \<le> maxInt"
  shows "\<exists>r. readBytes m a w = Inr r \<and>
     (\<forall>n. bit r n \<longleftrightarrow> n < 64 \<and> n < 8 * nat w \<and> bit (m ! (unat a + n div 8)) (n mod 8))"
  using readBytes_loop_ok [of 0 a w m 0] assms by (simp add: readBytes_def)

lemma roundtrip_any_width:
  assumes "0 \<le> w" "unat a + nat w \<le> length m" "length m \<le> maxInt"
  shows "\<exists>m'. writeBytes m a w v = Inr m' \<and> length m' = length m \<and>
               readBytes m' a w = Inr (take_bit (nat (8 * w)) v)"
proof -
  from writeBytes_ok [OF assms]
  obtain m' where w: "writeBytes m a w v = Inr m'" and l: "length m' = length m"
    and c: "\<And>k. m' ! k = (if unat a \<le> k \<and> k < unat a + nat w
                      then ucast (drop_bit (8 * (k - unat a)) v) else m ! k)"
    by auto
  from readBytes_ok [of w a m'] assms l
  obtain r where r: "readBytes m' a w = Inr r"
    and b: "\<And>n. bit r n \<longleftrightarrow>
        (n < 64 \<and> n < 8 * nat w \<and> bit (m' ! (unat a + n div 8)) (n mod 8))"
    by auto
  have "bit r n \<longleftrightarrow> bit (take_bit (nat (8 * w)) v) n" for n
  proof (cases "n < 8 * nat w")
    case True
    then have "n div 8 < nat w" by simp
    then have "m' ! (unat a + n div 8) = ucast (drop_bit (8 * (n div 8)) v)"
      by (simp add: c)
    then show ?thesis
      using True assms(1) b [of n]
      by (auto simp: bit_simps nat_mult_distrib dest: bit_imp_le_length)
  next
    case False
    then show ?thesis
      using assms(1) b [of n] by (simp add: bit_simps nat_mult_distrib)
  qed
  then have "r = take_bit (nat (8 * w)) v"
    by (rule bit_eqI)
  with w l r show ?thesis by simp
qed

text \<open>
  An access that runs past the end of the memory panics at the first index that is out
  of range; a write has then changed nothing below \<open>start\<close>.
\<close>

lemma readBytes_loop_fail:
  "0 \<le> i \<Longrightarrow> unat start + nat i \<le> length frm \<Longrightarrow> length frm < unat start + nat bytes \<Longrightarrow>
   length frm \<le> maxInt \<Longrightarrow> readBytes_loop frm start bytes i val = Inl IndexOutOfRange"
proof (induction frm start bytes i val rule: readBytes_loop.induct)
  case (1 frm start bytes i val)
  have lt: "i < bytes" using 1(2,3,4) by arith
  have idx: "unat (start + word_of_int i) = unat start + nat i"
    using 1(2,3,5) by (intro unat_index) (auto simp: maxInt_def)
  show ?case
  proof (cases "unat start + nat i < length frm")
    case True
    then have "unat start + nat (i + 1) \<le> length frm"
      using 1(2) by (simp add: nat_add_distrib)
    with "1.IH" [OF lt] True idx 1(2,4,5) lt show ?thesis
      by (simp add: readBytes_loop.simps [of frm start bytes i val] inRange_iff)
  next
    case False
    with idx lt show ?thesis
      by (simp add: readBytes_loop.simps [of frm start bytes i val] inRange_def)
  qed
qed

lemma writeBytes_loop_fail:
  "0 \<le> i \<Longrightarrow> unat start + nat i \<le> length to \<Longrightarrow> length to < unat start + nat bytes \<Longrightarrow>
   length to \<le> maxInt \<Longrightarrow>
   \<exists>to'. writeBytes_loop to start bytes val i = Inl (IndexOutOfRange, to') \<and>
         length to' = length to \<and> (\<forall>k < unat start + nat i. to' ! k = to ! k)"
proof (induction to start bytes val i rule: writeBytes_loop.induct)
  case (1 to start bytes val i)
  have lt: "i < bytes" using 1(2,3,4) by arith
  have idx: "unat (start + word_of_int i) = unat start + nat i"
    using 1(2,3,5) by (intro unat_index) (auto simp: maxInt_def)
  show ?case
  proof (cases "unat start + nat i < length to")
    case True
    then have "unat start + nat (i + 1) \<le> length to"
      using 1(2) by (simp add: nat_add_distrib)
    with "1.IH" [OF lt] True idx 1(2,4,5) lt show ?thesis
      by (auto simp add: writeBytes_loop.simps [of to start bytes val i] nat_add_distrib
            inRange_iff)
  next
    case False
    with idx lt show ?thesis
      by (simp add: writeBytes_loop.simps [of to start bytes val i] inRange_def)
  qed
qed

lemma readBytes_out_of_bounds:
  assumes "1 \<le> w" "length m < unat a + nat w" "length m \<le> maxInt"
  shows "readBytes m a w = Inl IndexOutOfRange"
proof (cases "unat a \<le> length m")
  case True
  with readBytes_loop_fail [of 0 a m w 0] assms show ?thesis
    by (simp add: readBytes_def)
next
  case False
  with assms(1) show ?thesis
    by (simp add: readBytes_def readBytes_loop.simps [of m a w 0 0] inRange_def)
qed

lemma writeBytes_out_of_bounds:
  assumes "1 \<le> w" "length m < unat a + nat w" "length m \<le> maxInt"
  shows "\<exists>m'. writeBytes m a w v = Inl (IndexOutOfRange, m') \<and> length m' = length m \<and>
              (\<forall>k < unat a. m' ! k = m ! k)"
proof (cases "unat a \<le> length m")
  case True
  with writeBytes_loop_fail [of 0 a m w v] assms show ?thesis
    by (simp add: writeBytes_def)
next
  case False
  with assms(1) show ?thesis
    by (simp add: writeBytes_def writeBytes_loop.simps [of m a w v 0] inRange_def)
qed

text \<open>
  Claim C2 (round trip). For every memory \<open>m\<close>, every address \<open>a\<close> with \<open>a + w\<close> inside
  the memory, every width \<open>w\<close> among 1, 2, 4 and 8 and every 64-bit value \<open>v\<close>:
  \<open>writeBytes m a w v\<close> succeeds, and \<open>readBytes\<close> on the memory it leaves, at the same
  address and width, returns \<open>v AND (2 ^ (8 * w) - 1)\<close>, the number \<open>v mod 2 ^ (8 * w)\<close>.
\<close>

theorem writeBytes_readBytes_roundtrip:
  assumes "w \<in> {1, 2, 4, 8}" and "unat a + nat w \<le> length m" and "length m \<le> maxInt"
  shows "\<exists>m' r. writeBytes m a w v = Inr m' \<and> readBytes m' a w = Inr r \<and>
           r = v AND (2 ^ (8 * nat w) - 1) \<and> unat r = unat v mod 2 ^ (8 * nat w)"
proof -
  from assms(1) have w0: "0 \<le> w" by auto
  from roundtrip_any_width [OF w0 assms(2,3)]
  obtain m' where m': "writeBytes m a w v = Inr m'"
    and r: "readBytes m' a w = Inr (take_bit (nat (8 * w)) v)"
    by blast
  have n: "nat (8 * w) = 8 * nat w"
    using w0 by (simp add: nat_mult_distrib)
  have "take_bit (8 * nat w) v = v AND (2 ^ (8 * nat w) - 1)"
    by (simp add: take_bit_eq_mask mask_eq_exp_minus_1)
  moreover have "unat (take_bit (8 * nat w) v) = unat v mod 2 ^ (8 * nat w)"
    unfolding unsigned_take_bit_eq by (simp add: take_bit_eq_mod)
  ultimately show ?thesis
    using m' r unfolding n by simp
qed

theorem writeBytes_readBytes_roundtrip_witness:
  "(4 :: int) \<in> {1, 2, 4, 8} \<and>
   unat (2 :: uint64) + nat 4 \<le> length [0, 0, 0, 0, 0, 0, 0, 0 :: byte] \<and>
   length [0, 0, 0, 0, 0, 0, 0, 0 :: byte] \<le> maxInt \<and>
   writeBytes [0, 0, 0, 0, 0, 0, 0, 0] 2 4 0x1122334455667788
     = Inr [0, 0, 0x88, 0x77, 0x66, 0x55, 0, 0] \<and>
   readBytes [0, 0, 0x88, 0x77, 0x66, 0x55, 0, 0] 2 4 = Inr 0x55667788"
  using writeBytes_readBytes_roundtrip [of 4 2 "[0, 0, 0, 0, 0, 0, 0, 0]" "0x1122334455667788"]
  by (simp add: maxInt_def writeBytes_def writeBytes_loop.simps readBytes_def
        readBytes_loop.simps inRange_def)

text \<open>
  Claim C7 (bounds). For every address \<open>a\<close> and width \<open>w\<close> from 1 to 8: when \<open>a + w\<close>
  exceeds the size of the memory, \<open>readBytes\<close> and \<open>writeBytes\<close> take the error path (the
  index panic), and the write has touched no byte below \<open>a\<close>, so no address has wrapped
  round to the start of the memory; when \<open>a + w\<close> is within the memory neither takes the
  error path.
\<close>

theorem codec_fails_fast_out_of_bounds:
  assumes "1 \<le> w" and "w \<le> 8" and "length m \<le> maxInt"
  shows "(length m < unat a + nat w \<longrightarrow>
            readBytes m a w = Inl IndexOutOfRange \<and>
            (\<exists>m'. writeBytes m a w v = Inl (IndexOutOfRange, m') \<and> length m' = length m \<and>
                   (\<forall>k < unat a. m' ! k = m ! k))) \<and>
         (unat a + nat w \<le> length m \<longrightarrow>
            (\<exists>r. readBytes m a w = Inr r) \<and> (\<exists>m'. writeBytes m a w v = Inr m'))"
proof (intro conjI impI)
  assume "length m < unat a + nat w"
  with assms show "readBytes m a w = Inl IndexOutOfRange"
    by (intro readBytes_out_of_bounds)
next
  assume "length m < unat a + nat w"
  with assms show "\<exists>m'. writeBytes m a w v = Inl (IndexOutOfRange, m') \<and>
      length m' = length m \<and> (\<forall>k < unat a. m' ! k = m ! k)"
    by (intro writeBytes_out_of_bounds)
next
  assume "unat a + nat w \<le> length m"
  with readBytes_ok [of w a m] assms show "\<exists>r. readBytes m a w = Inr r"
    by auto
next
  assume "unat a + nat w \<le> length m"
  with writeBytes_ok [of w a m v] assms show "\<exists>m'. writeBytes m a w v = Inr m'"
    by auto
qed

theorem codec_fails_fast_out_of_bounds_witness:
  "(1 :: int) \<le> 4 \<and> (4 :: int) \<le> 8 \<and> length [1, 2, 3, 4, 5, 6, 7, 8 :: byte] \<le> maxInt \<and>
   length [1, 2, 3, 4, 5, 6, 7, 8 :: byte] < unat (6 :: uint64) + nat 4 \<and>
   readBytes [1, 2, 3, 4, 5, 6, 7, 8] 6 4 = Inl IndexOutOfRange \<and>
   writeBytes [1, 2, 3, 4, 5, 6, 7, 8] 6 4 0xAABBCCDD
     = Inl (IndexOutOfRange, [1, 2, 3, 4, 5, 6, 0xDD, 0xCC]) \<and>
   length [1, 2, 3, 4, 5, 6, 7, 8 :: byte] < unat (0xFFFFFFFFFFFFFFFE :: uint64) + nat 4 \<and>
   readBytes [1, 2, 3, 4, 5, 6, 7, 8] 0xFFFFFFFFFFFFFFFE 4 = Inl IndexOutOfRange \<and>
   writeBytes [1, 2, 3, 4, 5, 6, 7, 8] 0xFFFFFFFFFFFFFFFE 4 0xAABBCCDD
     = Inl (IndexOutOfRange, [1, 2, 3, 4, 5, 6, 7, 8]) \<and>
   unat (4 :: uint64) + nat 4 \<le> length [1, 2, 3, 4, 5, 6, 7, 8 :: byte] \<and>
   readBytes [1, 2, 3, 4, 5, 6, 7, 8] 4 4 = Inr 0x08070605 \<and>
   writeBytes [1, 2, 3, 4, 5, 6, 7, 8] 4 4 0xAABBCCDD
     = Inr [1, 2, 3, 4, 0xDD, 0xCC, 0xBB, 0xAA]"
  using codec_fails_fast_out_of_bounds [of 4 "[1, 2, 3, 4, 5, 6, 7, 8]" 6 "0xAABBCCDD"]
    codec_fails_fast_out_of_bounds [of 4 "[1, 2, 3, 4, 5, 6, 7, 8]" "0xFFFFFFFFFFFFFFFE" "0xAABBCCDD"]
    codec_fails_fast_out_of_bounds [of 4 "[1, 2, 3, 4, 5, 6, 7, 8]" 4 "0xAABBCCDD"]
  by (simp add: maxInt_def writeBytes_def writeBytes_loop.simps readBytes_def
        readBytes_loop.simps inRange_def)

section \<open>The engine\<close>

lemma regfile_get_ok [simp]: "r < 18 \<Longrightarrow> regfile_get rf r = Inr (rf r)"
  by (simp add: regfile_get_def)

lemma regfile_set_ok [simp]: "r < 18 \<Longrightarrow> regfile_set rf r v = Inr (rf(r := v))"
  by (simp add: regfile_set_def)

lemma exec_step: "exec c = step c (regfile c rip)"
  by (simp add: exec_def)

text \<open>The scan stops at the first byte that is not a prefix and passes over a prefix.\<close>

lemma prefixScan_opcode:
  "inRange m ip \<Longrightarrow> m ! unat ip \<noteq> 0x48 \<Longrightarrow> m ! unat ip \<noteq> 0x66 \<Longrightarrow>
   prefixScan m ip w = Inr (ip, m ! unat ip, w)"
  by (simp add: prefixScan.simps [of m ip w] prefixBytes_def)

lemma prefixScan_48:
  "inRange m ip \<Longrightarrow> m ! unat ip = 0x48 \<Longrightarrow> prefixScan m ip w = prefixScan m (ip + 1) 64"
  by (simp add: prefixScan.simps [of m ip w] prefixBytes_def)

lemma prefixScan_66:
  "inRange m ip \<Longrightarrow> m ! unat ip = 0x66 \<Longrightarrow> prefixScan m ip w = prefixScan m (ip + 1) 16"
  by (simp add: prefixScan.simps [of m ip w] prefixBytes_def)

text \<open>
  What the scan returns: an address in range, the byte found there, which is not a
  prefix, and one of the three widths.
\<close>

lemma prefixScan_result:
  "prefixScan m ip0 w0 = Inr (ip, b, w) \<Longrightarrow>
   inRange m ip \<and> b = m ! unat ip \<and> b \<noteq> 0x48 \<and> b \<noteq> 0x66 \<and> (w = w0 \<or> w = 64 \<or> w = 16)"
proof (induction m ip0 w0 rule: prefixScan.induct)
  case (1 m ip0 w0)
  show ?case
  proof (cases "inRange m ip0")
    case False
    with "1.prems" show ?thesis
      by (simp add: prefixScan.simps [of m ip0 w0])
  next
    case True
    consider "m ! unat ip0 = 0x48" | "m ! unat ip0 = 0x66"
      | "m ! unat ip0 \<noteq> 0x48" "m ! unat ip0 \<noteq> 0x66"
      by blast
    then show ?thesis
    proof cases
      case 1
      with True "1.prems" "1.IH"(1) show ?thesis
        by (auto simp: prefixScan_48 prefixBytes_def)
    next
      case 2
      with True "1.prems" "1.IH"(2) show ?thesis
        by (auto simp: prefixScan_66 prefixBytes_def)
    next
      case 3
      with True "1.prems" show ?thesis
        by (auto simp: prefixScan_opcode)
    qed
  qed
qed

lemma bit_littleEndian:
  "bit (littleEndian bs) n \<longleftrightarrow> n < 64 \<and> n div 8 < length bs \<and> bit (bs ! (n div 8)) (n mod 8)"
proof (induction bs arbitrary: n)
  case Nil
  show ?case by simp
next
  case (Cons b bs)
  show ?case
  proof (cases "n < 8")
    case True
    then show ?thesis
      by (simp add: bit_simps)
  next
    case False
    then have d: "n div 8 = Suc ((n - 8) div 8)" and m: "n mod 8 = (n - 8) mod 8"
      by (simp_all add: le_div_geq le_mod_geq)
    from False have "bit (littleEndian (b # bs)) n \<longleftrightarrow> n < 64 \<and> bit (littleEndian bs) (n - 8)"
      by (auto simp: bit_simps dest: bit_imp_le_length)
    also have "\<dots> \<longleftrightarrow> n < 64 \<and> (n - 8) div 8 < length bs \<and>
        bit (bs ! ((n - 8) div 8)) ((n - 8) mod 8)"
      using Cons.IH [of "n - 8"] by auto
    finally show ?thesis
      unfolding d m by simp
  qed
qed

lemma readBytes_littleEndian:
  assumes "0 \<le> w" "unat a + nat w \<le> length m" "length m \<le> maxInt"
  shows "readBytes m a w = Inr (littleEndian (take (nat w) (drop (unat a) m)))"
proof -
  from readBytes_ok [OF assms]
  obtain r where r: "readBytes m a w = Inr r"
    and b: "\<And>n. bit r n \<longleftrightarrow>
        (n < 64 \<and> n < 8 * nat w \<and> bit (m ! (unat a + n div 8)) (n mod 8))"
    by auto
  have "bit r n \<longleftrightarrow> bit (littleEndian (take (nat w) (drop (unat a) m))) n" for n
  proof (cases "n div 8 < nat w")
    case True
    then have "n < 8 * nat w" by simp
    moreover have "length (take (nat w) (drop (unat a) m)) = nat w"
      using assms(2) by simp
    moreover have "drop (unat a) m ! (n div 8) = m ! (unat a + n div 8)"
      using assms(2) True by (intro nth_drop) simp
    ultimately show ?thesis
      using True by (simp add: b bit_littleEndian del: length_take nth_drop)
  next
    case False
    then have "\<not> n < 8 * nat w" by simp
    with False show ?thesis
      by (simp add: b bit_littleEndian)
  qed
  then have "r = littleEndian (take (nat w) (drop (unat a) m))"
    by (rule bit_eqI)
  with r show ?thesis by simp
qed

lemma littleEndian_bound:
  "take_bit (8 * length bs) (littleEndian bs) = littleEndian bs"
  by (rule bit_eqI) (auto simp: bit_simps bit_littleEndian)

text \<open>The advance writes \<open>rip\<close> last, whatever the instruction did before.\<close>

lemma advance_ok: "advance c ip = Inr (c\<lparr>regfile := (regfile c)(rip := ip + 1)\<rparr>)"
  by (simp add: advance_def)

lemma push_register: "0x50 \<le> b \<Longrightarrow> b < 0x58 \<Longrightarrow> unat (b - 0x50 :: byte) < 8"
  by (simp add: word_le_nat_alt word_less_nat_alt unat_sub_if')

lemma pop_register: "0x58 \<le> b \<Longrightarrow> b < 0x60 \<Longrightarrow> unat (b - 0x58 :: byte) < 8"
  by (simp add: word_le_nat_alt word_less_nat_alt unat_sub_if')

lemma movImm_register: "0xB8 \<le> b \<Longrightarrow> b < 0xC0 \<Longrightarrow> unat (b - 0xB8 :: byte) < 8"
  by (simp add: word_le_nat_alt word_less_nat_alt unat_sub_if')

lemma mov_lhs_register: "unat (b AND 7 :: byte) < 8"
proof -
  have "b AND 7 \<le> 7"
    by (fact word_and_le1)
  then show ?thesis
    by (simp add: word_le_nat_alt)
qed

lemma mov_rhs_register: "unat (drop_bit 3 (b AND 0x38 :: byte)) < 8"
proof -
  have "b AND 0x38 \<le> 0x38"
    by (fact word_and_le1)
  then have "unat (b AND 0x38) div 8 < 8"
    by (simp add: word_le_nat_alt)
  then show ?thesis
    by (simp add: drop_bit_eq_div unat_div)
qed

lemma unat_add_small:
  "unat (x :: uint64) \<le> maxInt \<Longrightarrow> k < 2 ^ 62 \<Longrightarrow> unat (x + word_of_nat k) = unat x + k"
  by (simp add: unat_word_ariths maxInt_def unat_of_nat take_bit_nat_eq_self)

lemma unat_plus_10:
  "inRange m ip \<Longrightarrow> unat (ip + 10) = unat ip + 10"
  using unat_add_small [of ip 10] by (simp add: inRange_def)

lemma slice_dump:
  "inRange m ip \<Longrightarrow> length m \<le> maxInt \<Longrightarrow>
   slice m ip (ip + 10) =
     (if unat ip + 10 \<le> length m then Inr (take 10 (drop (unat ip) m))
      else Inl SliceBoundsOutOfRange)"
  by (auto simp: slice_def unat_plus_10)

text \<open>
  An opcode outside the recognised ranges reaches the last branch of the dispatch,
  whatever prefixes came before it.
\<close>

lemma unknown_opcode_dispatch:
  assumes "prefixScan (mem c) (regfile c rip) 32 = Inr (ip, b, w)"
    and "\<not> (0x50 \<le> b \<and> b \<le> 0x5F)" and "b \<noteq> 0x89"
    and "\<not> (0xB8 \<le> b \<and> b \<le> 0xBF)" and "b \<noteq> 0xC3"
  shows "exec c = unknownInstruction c ip"
proof -
  from assms(2) have "\<not> (0x50 \<le> b \<and> b < 0x58)" and "\<not> (0x58 \<le> b \<and> b < 0x60)"
    by (auto simp: word_le_nat_alt word_less_nat_alt)
  moreover from assms(4) have "\<not> (0xB8 \<le> b \<and> b < 0xC0)"
    by (auto simp: word_le_nat_alt word_less_nat_alt)
  ultimately show ?thesis
    using assms(1,3,5) by (auto simp: exec_step step_def)
qed

text \<open>
  The fault: the engine panics and the state, \<open>rip\<close> included, is the one before the
  step. The bytes are dumped and the panic is \<^verbatim>\<open>Unknown instruction\<close> when ten bytes
  remain from the address of the opcode; nearer to the end of the memory the slice
  expression of the dump panics first and nothing is printed.
\<close>

lemma unknown_opcode_fatal:
  assumes "length (mem c) \<le> maxInt"
    and "prefixScan (mem c) (regfile c rip) 32 = Inr (ip, b, w)"
    and "\<not> (0x50 \<le> b \<and> b \<le> 0x5F)" and "b \<noteq> 0x89"
    and "\<not> (0xB8 \<le> b \<and> b \<le> 0xBF)" and "b \<noteq> 0xC3"
  shows "exec c =
     (if unat ip + 10 \<le> length (mem c)
      then Inl (UnknownInstruction (take 10 (drop (unat ip) (mem c))), c)
      else Inl (SliceBoundsOutOfRange, c))"
proof -
  from prefixScan_result [OF assms(2)] have "inRange (mem c) ip"
    by simp
  then show ?thesis
    using unknown_opcode_dispatch [OF assms(2-)] assms(1)
    by (simp add: unknownInstruction_def slice_dump)
qed

text \<open>
  Claim C6 (fault law), at the failing input: a cpu of twelve bytes of memory runs the
  image whose only byte is the unrecognised opcode 0x0F, loaded and entered at address
  3. The first step is fatal and \<open>rip\<close> is still 3, but the engine stops in the slice
  expression \<^verbatim>\<open>c.mem[ip:ip+10]\<close> (13 exceeds the capacity 12), before the diagnostic dump
  and before \<^verbatim>\<open>panic("Unknown instruction")\<close>.
\<close>

theorem unknown_opcode_near_end_no_dump:
  "newCPU 12 = Inr \<lparr>proc = None, mem = [0, 0, 0, 0, 0, 0, 0, 0, 0, 0, 0, 0],
                    regfile = (\<lambda>r. 0)\<rparr> \<and>
   run (Suc 0) \<lparr>proc = None, mem = [0, 0, 0, 0, 0, 0, 0, 0, 0, 0, 0, 0], regfile = (\<lambda>r. 0)\<rparr>
         \<lparr>startAddress = 3, entryPoint = 3, bin = [0x0F]\<rparr>
   = Panic SliceBoundsOutOfRange
       \<lparr>proc = None, mem = [0, 0, 0, 0x0F, 4, 0, 0, 0, 0, 0, 0, 0],
        regfile = (\<lambda>r. 0)(rip := 3, rsp := 4)\<rparr>"
proof -
  have "replicate 12 (0 :: byte) = [0, 0, 0, 0, 0, 0, 0, 0, 0, 0, 0, 0]"
    by (simp add: eval_nat_numeral)
  then show ?thesis
    by (simp add: newCPU_def run_def bootstrap_def slice_def maxInt_def writeBytes_def
          writeBytes_loop.simps inRange_def step_def prefixScan.simps prefixBytes_def
          unknownInstruction_def)
qed

lemma movRegReg_ip: "movRegReg c ip = Inr (c', ip') \<Longrightarrow> ip' = ip + 1"
  by (auto simp: movRegReg_def Let_def split: if_splits sum.splits)

lemma movImm_ip: "movImm c ip b w = Inr (c', ip') \<Longrightarrow> ip' = ip + word_of_int (w div 8)"
  by (auto simp: movImm_def Let_def split: sum.splits)

lemma unknownInstruction_fails: "unknownInstruction c ip \<noteq> Inr c'"
  by (simp add: unknownInstruction_def split: sum.splits)

text \<open>
  Claim C5 (return). Let the instruction at \<open>rip\<close> have, after its prefixes, the opcode
  byte \<open>b\<close> at address \<open>ip\<close>. If \<open>b\<close> is 0xC3 and eight bytes lie in the memory at the
  stack pointer, the step succeeds, adds 8 to \<open>rsp\<close> and sets \<open>rip\<close> to the little-endian
  value of these eight bytes, with no 1 added. For every other opcode, a step that
  succeeds leaves \<open>rip\<close> at one more than \<open>ip\<close> plus the operand bytes consumed (one for
  0x89, \<open>widthPrefix/8\<close> for 0xB8 to 0xBF).
\<close>

theorem ret_sets_rip_without_advance:
  assumes "length (mem c) \<le> maxInt"
    and "prefixScan (mem c) (regfile c rip) 32 = Inr (ip, b, w)"
  shows "(b = 0xC3 \<and> unat (regfile c rsp) + 8 \<le> length (mem c) \<longrightarrow>
            exec c = Inr (c\<lparr>regfile := (regfile c)
               (rsp := regfile c rsp + 8,
                rip := littleEndian (take 8 (drop (unat (regfile c rsp)) (mem c))))\<rparr>)) \<and>
         (b \<noteq> 0xC3 \<longrightarrow> (\<forall>c'. exec c = Inr c' \<longrightarrow>
            regfile c' rip =
              ip + (if b = 0x89 then 1
                    else if 0xB8 \<le> b \<and> b < 0xC0 then word_of_int (w div 8) else 0) + 1))"
proof (intro conjI impI allI)
  assume "b = 0xC3 \<and> unat (regfile c rsp) + 8 \<le> length (mem c)"
  then have b: "b = 0xC3" and sp: "unat (regfile c rsp) + nat 8 \<le> length (mem c)"
    by simp_all
  from readBytes_littleEndian [OF _ sp assms(1)]
  have "readBytes (mem c) (regfile c rsp) 8
          = Inr (littleEndian (take 8 (drop (unat (regfile c rsp)) (mem c))))"
    by simp
  with assms(2) b show "exec c = Inr (c\<lparr>regfile := (regfile c)
               (rsp := regfile c rsp + 8,
                rip := littleEndian (take 8 (drop (unat (regfile c rsp)) (mem c))))\<rparr>)"
    by (simp add: exec_step step_def ret_def)
next
  fix c'
  assume nb: "b \<noteq> 0xC3" and ex: "exec c = Inr c'"
  from ex assms(2) have st: "step c (regfile c rip) = Inr c'"
    by (simp add: exec_step)
  consider (push) "0x50 \<le> b \<and> b < 0x58"
    | (pop) "\<not> (0x50 \<le> b \<and> b < 0x58)" "0x58 \<le> b \<and> b < 0x60"
    | (mov) "b = 0x89"
    | (imm) "0xB8 \<le> b \<and> b < 0xC0"
    | (other) "\<not> (0x50 \<le> b \<and> b < 0x58)" "\<not> (0x58 \<le> b \<and> b < 0x60)" "b \<noteq> 0x89"
        "\<not> (0xB8 \<le> b \<and> b < 0xC0)"
    by blast
  then show "regfile c' rip =
      ip + (if b = 0x89 then 1
            else if 0xB8 \<le> b \<and> b < 0xC0 then word_of_int (w div 8) else 0) + 1"
  proof cases
    case push
    then have "b \<noteq> 0x89" and "\<not> (0xB8 \<le> b \<and> b < 0xC0)"
      by (auto simp: word_le_nat_alt word_less_nat_alt)
    with push st assms(2) show ?thesis
      by (auto simp: step_def advance_ok split: sum.splits)
  next
    case pop
    then have "b \<noteq> 0x89" and "\<not> (0xB8 \<le> b \<and> b < 0xC0)"
      by (auto simp: word_le_nat_alt word_less_nat_alt)
    with pop st assms(2) show ?thesis
      by (auto simp: step_def advance_ok split: sum.splits)
  next
    case mov
    with st assms(2) obtain c1 ip1
      where m: "movRegReg c ip = Inr (c1, ip1)" and a: "advance c1 ip1 = Inr c'"
      by (auto simp: step_def split: sum.splits)
    from movRegReg_ip [OF m] a mov show ?thesis
      by (auto simp: advance_ok)
  next
    case imm
    then have "b \<noteq> 0x89" and "\<not> (0x50 \<le> b \<and> b < 0x58)" and "\<not> (0x58 \<le> b \<and> b < 0x60)"
      by (auto simp: word_le_nat_alt word_less_nat_alt)
    with imm st assms(2) obtain c1 ip1
      where m: "movImm c ip b w = Inr (c1, ip1)" and a: "advance c1 ip1 = Inr c'"
      by (auto simp: step_def split: sum.splits)
    from movImm_ip [OF m] a imm \<open>b \<noteq> 0x89\<close> show ?thesis
      by (auto simp: advance_ok)
  next
    case other
    with st assms(2) nb show ?thesis
      by (auto simp: step_def unknownInstruction_fails)
  qed
qed

theorem ret_sets_rip_without_advance_witness:
  "length (mem \<lparr>proc = None, mem = [0xC3, 0x50, 0, 0, 0, 0, 0, 0, 8, 0, 0, 0, 0, 0, 0, 0],
                regfile = (\<lambda>r. 0)(rsp := 8)\<rparr>) \<le> maxInt \<and>
   prefixScan [0xC3, 0x50, 0, 0, 0, 0, 0, 0, 8, 0, 0, 0, 0, 0, 0, 0] 0 32 = Inr (0, 0xC3, 32) \<and>
   unat (8 :: uint64) + 8 \<le> length [0xC3, 0x50, 0, 0, 0, 0, 0, 0, 8, 0, 0, 0, 0, 0, 0, 0 :: byte] \<and>
   exec \<lparr>proc = None, mem = [0xC3, 0x50, 0, 0, 0, 0, 0, 0, 8, 0, 0, 0, 0, 0, 0, 0],
         regfile = (\<lambda>r. 0)(rsp := 8)\<rparr>
     = Inr \<lparr>proc = None, mem = [0xC3, 0x50, 0, 0, 0, 0, 0, 0, 8, 0, 0, 0, 0, 0, 0, 0],
            regfile = (\<lambda>r. 0)(rsp := 16, rip := 8)\<rparr> \<and>
   prefixScan [0xC3, 0x50, 0, 0, 0, 0, 0, 0, 8, 0, 0, 0, 0, 0, 0, 0] 1 32 = Inr (1, 0x50, 32) \<and>
   (0x50 :: byte) \<noteq> 0xC3 \<and>
   exec \<lparr>proc = None, mem = [0xC3, 0x50, 0, 0, 0, 0, 0, 0, 8, 0, 0, 0, 0, 0, 0, 0],
         regfile = (\<lambda>r. 0)(rsp := 8, rip := 1)\<rparr>
     = Inr \<lparr>proc = None, mem = [0, 0, 0, 0, 0, 0, 0, 0, 8, 0, 0, 0, 0, 0, 0, 0],
            regfile = (\<lambda>r. 0)(rsp := 0, rip := 2)\<rparr>"
  using ret_sets_rip_without_advance
      [of "\<lparr>proc = None, mem = [0xC3, 0x50, 0, 0, 0, 0, 0, 0, 8, 0, 0, 0, 0, 0, 0, 0],
            regfile = (\<lambda>r. 0)(rsp := 8)\<rparr>" 0 "0xC3" 32]
    ret_sets_rip_without_advance
      [of "\<lparr>proc = None, mem = [0xC3, 0x50, 0, 0, 0, 0, 0, 0, 8, 0, 0, 0, 0, 0, 0, 0],
            regfile = (\<lambda>r. 0)(rsp := 8, rip := 1)\<rparr>" 1 "0x50" 32]
  by (simp add: maxInt_def prefixScan.simps prefixBytes_def inRange_def exec_step step_def
        push_def advance_ok writeBytes_def writeBytes_loop.simps fun_upd_twist)

section \<open>Termination of the program that only returns\<close>

text \<open>
  A state whose next instruction is \<^verbatim>\<open>ret\<close> and whose stack pointer addresses the
  return address of the entry function: the first signal executes the \<^verbatim>\<open>ret\<close>, the
  second finds \<open>rip\<close> at the return address and leaves the loop.
\<close>

lemma loop_ret_halts:
  assumes "inRange (mem c) (regfile c rip)"
    and "mem c ! unat (regfile c rip) = 0xC3"
    and "regfile c rip \<noteq> regfile c rsp"
    and "readBytes (mem c) (regfile c rsp) 8 = Inr (regfile c rsp)"
  shows "loop (Suc (Suc t)) c (regfile c rsp)
           = Break (c\<lparr>regfile := (regfile c)(rsp := regfile c rsp + 8, rip := regfile c rsp)\<rparr>)"
proof -
  have "prefixScan (mem c) (regfile c rip) 32 = Inr (regfile c rip, 0xC3, 32)"
    using prefixScan_opcode [OF assms(1), of 32] assms(2) by simp
  then have "step c (regfile c rip)
      = Inr (c\<lparr>regfile := (regfile c)(rsp := regfile c rsp + 8, rip := regfile c rsp)\<rparr>)"
    using assms(4) by (simp add: step_def ret_def)
  with assms(3) show ?thesis
    by simp
qed

lemma loop_more_signals:
  "loop t c era = Break c' \<Longrightarrow> loop (t + k) c era = Break c'"
proof (induction t arbitrary: c)
  case 0
  then show ?case by simp
next
  case (Suc t)
  then show ?case
    by (auto split: sum.splits if_splits prod.splits)
qed

text \<open>
  Claim C1 (termination law). A freshly constructed cpu of \<open>n\<close> bytes runs the image
  whose only byte is 0xC3, loaded and entered at an address below the eight bytes of the
  return address at \<open>n - 8\<close>. The bootstrap succeeds; with two signals or more on the
  channel the loop ends by its \<^verbatim>\<open>break\<close>, the accumulator \<open>rax\<close> still holds its initial
  0, and \<open>run\<close> exits with status 0.
\<close>

theorem ret_only_program_exits_with_rax:
  assumes "newCPU n = Inr c"
    and "bin p = [0xC3]" and "startAddress p = entryPoint p"
    and "unat (entryPoint p) + 1 \<le> unat n - 8"
    and "2 \<le> ticks"
  shows "\<exists>c1 c2. bootstrap c p = Inr (c1, n - 8) \<and>
           mem c1 ! unat (entryPoint p) = 0xC3 \<and>
           readBytes (mem c1) (n - 8) 8 = Inr (n - 8) \<and>
           regfile c1 rsp = n - 8 \<and> regfile c1 rip = entryPoint p \<and>
           loop ticks c1 (n - 8) = Break c2 \<and> regfile c2 rax = 0 \<and>
           run ticks c p = Exit 0"
proof -
  define N where "N = unat n"
  define e where "e = entryPoint p"
  define E where "E = unat e"
  from assms(1) have c: "c = \<lparr>proc = None, mem = replicate N 0, regfile = (\<lambda>r. 0)\<rparr>"
    and N: "N \<le> maxInt"
    by (auto simp: newCPU_def N_def split: if_splits)
  from assms(4) have EN: "E + 9 \<le> N"
    by (simp add: E_def e_def N_def)
  have e1: "unat (e + 1) = E + 1"
    using EN N by (simp add: unat_word_ariths E_def maxInt_def)
  have sp: "unat (n - 8) = N - 8"
    using EN by (simp add: unat_sub_if' N_def)
  have isp: "(word_of_nat N :: uint64) = n"
    by (simp add: N_def)
  define m1 where "m1 = replicate E (0 :: byte) @ [0xC3] @ replicate (N - E - 1) 0"
  have lm1: "length m1 = N"
    using EN by (simp add: m1_def)
  have sl: "slice (mem c) e (e + 1) = Inr [0]"
    using EN N by (simp add: slice_def c e1 E_def [symmetric])
  from writeBytes_ok [of 8 "n - 8" m1 "n - 8"] sp lm1 N EN
  obtain m2 where w: "writeBytes m1 (n - 8) 8 (n - 8) = Inr m2" and lm2: "length m2 = N"
    and m2: "\<And>k. m2 ! k = (if N - 8 \<le> k \<and> k < N - 8 + 8
                then ucast (drop_bit (8 * (k - (N - 8))) (n - 8)) else m1 ! k)"
    by auto
  have "take_bit 64 (n - 8) = n - 8"
    by (simp add: take_bit_word_eq_self)
  with roundtrip_any_width [of 8 "n - 8" m1 "n - 8"] sp lm1 N EN w
  have rd: "readBytes m2 (n - 8) 8 = Inr (n - 8)"
    by auto
  have m2E: "m2 ! E = 0xC3"
    using EN by (simp add: m2 m1_def nth_append)
  define c1 where "c1 = c\<lparr>mem := m2, regfile := (\<lambda>r. 0)(rip := e, rsp := n - 8)\<rparr>"
  have boot: "bootstrap c p = Inr (c1, n - 8)"
    using sl w EN
    by (simp add: bootstrap_def assms(2,3) e_def [symmetric] c1_def )
       (simp add: c isp m1_def E_def [symmetric] Let_def)
  have ne: "e \<noteq> n - 8"
    using EN sp by (auto simp: E_def)
  have inr: "inRange (mem c1) (regfile c1 rip)"
    using EN N lm2 by (simp add: c1_def inRange_def E_def [symmetric])
  from loop_ret_halts [of c1 0] inr m2E ne rd
  have "loop (Suc (Suc 0)) c1 (n - 8)
          = Break (c1\<lparr>regfile := (regfile c1)(rsp := n - 8 + 8, rip := n - 8)\<rparr>)"
    by (simp add: c1_def E_def)
  from loop_more_signals [OF this, of "ticks - 2"]
  have "loop (Suc (Suc 0) + (ticks - 2)) c1 (n - 8)
          = Break (c1\<lparr>regfile := (regfile c1)(rsp := n - 8 + 8, rip := n - 8)\<rparr>)" .
  moreover have "Suc (Suc 0) + (ticks - 2) = ticks"
    using assms(5) by simp
  ultimately have lp: "loop ticks c1 (n - 8)
          = Break (c1\<lparr>regfile := (regfile c1)(rsp := n - 8 + 8, rip := n - 8)\<rparr>)"
    by (simp only:)
  show ?thesis
    using boot lp m2E rd
    by (simp add: run_def c1_def e_def E_def)
qed

theorem ret_only_program_exits_with_rax_witness:
  "newCPU 16 = Inr \<lparr>proc = None, mem = replicate 16 0, regfile = (\<lambda>r. 0)\<rparr> \<and>
   bin \<lparr>startAddress = 2, entryPoint = 2, bin = [0xC3]\<rparr> = [0xC3] \<and>
   unat (2 :: uint64) + 1 \<le> unat (16 :: uint64) - 8 \<and> (2 :: nat) \<le> 2 \<and>
   run 2 \<lparr>proc = None, mem = replicate 16 0, regfile = (\<lambda>r. 0)\<rparr>
         \<lparr>startAddress = 2, entryPoint = 2, bin = [0xC3]\<rparr> = Exit 0"
  using ret_only_program_exits_with_rax
      [of 16 "\<lparr>proc = None, mem = replicate 16 0, regfile = (\<lambda>r. 0)\<rparr>"
          "\<lparr>startAddress = 2, entryPoint = 2, bin = [0xC3]\<rparr>" 2]
  by (auto simp: newCPU_def maxInt_def)

text \<open>
  Two runs evaluated on a memory of sixteen bytes: the image \<^verbatim>\<open>mov eax, 5; ret\<close> of the
  specification exits with status 5 after three signals, and with one signal only the
  image \<^verbatim>\<open>ret\<close> has returned but the loop still waits for the signal that lets it
  test \<open>rip\<close>.
\<close>

lemma mov_eax_5_ret_exits_5:
  "run (Suc (Suc (Suc 0)))
       \<lparr>proc = None, mem = [0, 0, 0, 0, 0, 0, 0, 0, 0, 0, 0, 0, 0, 0, 0, 0], regfile = (\<lambda>r. 0)\<rparr>
       \<lparr>startAddress = 0, entryPoint = 0, bin = [0xB8, 5, 0, 0, 0, 0xC3]\<rparr> = Exit 5"
  by (simp add: run_def bootstrap_def slice_def maxInt_def writeBytes_def writeBytes_loop.simps
        inRange_def step_def prefixScan.simps prefixBytes_def movImm_def advance_ok
        readBytes_def readBytes_loop.simps ret_def)

lemma one_signal_is_not_enough:
  "run (Suc 0)
       \<lparr>proc = None, mem = [0, 0, 0, 0, 0, 0, 0, 0, 0, 0, 0, 0, 0, 0, 0, 0], regfile = (\<lambda>r. 0)\<rparr>
       \<lparr>startAddress = 2, entryPoint = 2, bin = [0xC3]\<rparr>
   = Blocked \<lparr>proc = None, mem = [0, 0, 0xC3, 0, 0, 0, 0, 0, 8, 0, 0, 0, 0, 0, 0, 0],
              regfile = (\<lambda>r. 0)(rip := 8, rsp := 16)\<rparr>"
  by (simp add: run_def bootstrap_def slice_def maxInt_def writeBytes_def writeBytes_loop.simps
        inRange_def step_def prefixScan.simps prefixBytes_def
        readBytes_def readBytes_loop.simps ret_def fun_upd_twist)

section \<open>Push, pop and move\<close>

lemma opcode_register:
  "r < 8 \<Longrightarrow> k \<le> 248 \<Longrightarrow> unat (word_of_nat k + word_of_nat r :: byte) = k + r"
  by (simp add: unat_word_ariths unat_of_nat take_bit_nat_eq_self)

lemma push_opcode:
  assumes "r < 8"
  shows "0x50 \<le> (0x50 + word_of_nat r :: byte)" and "(0x50 + word_of_nat r :: byte) < 0x58"
    and "unat (0x50 + word_of_nat r - 0x50 :: byte) = r"
  using opcode_register [OF assms, of 80] assms
  by (simp_all add: word_le_nat_alt word_less_nat_alt unat_of_nat take_bit_nat_eq_self)

lemma pop_opcode:
  assumes "r < 8"
  shows "\<not> (0x58 + word_of_nat r :: byte) < 0x58"
    and "0x58 \<le> (0x58 + word_of_nat r :: byte)" and "(0x58 + word_of_nat r :: byte) < 0x60"
    and "unat (0x58 + word_of_nat r - 0x58 :: byte) = r"
  using opcode_register [OF assms, of 88] assms
  by (simp_all add: word_le_nat_alt word_less_nat_alt unat_of_nat take_bit_nat_eq_self)

lemma unat_minus_8: "8 \<le> unat (x :: uint64) \<Longrightarrow> unat (x - 8) = unat x - 8"
  by (simp add: unat_sub_if')

text \<open>
  Claim C3 (push/pop inverse). Let the instruction at \<open>rip\<close> be \<^verbatim>\<open>push R\<close> for a register
  index \<open>r\<close> from 0 to 7 (opcode 0x50 + r after the prefixes, \<open>rsp\<close> being index 4), with
  the eight bytes below the stack pointer inside the memory. The push succeeds, and if
  the instruction the engine then finds at \<open>rip\<close> is \<^verbatim>\<open>pop R\<close> (opcode 0x58 + r), that
  step succeeds too, after which register \<open>r\<close> and \<open>rsp\<close> hold the values they had before
  the push.
\<close>

theorem push_pop_inverse:
  assumes "length (mem c) \<le> maxInt" and "r < 8"
    and "prefixScan (mem c) (regfile c rip) 32 = Inr (ip, 0x50 + word_of_nat r, w)"
    and "8 \<le> unat (regfile c rsp)" and "unat (regfile c rsp) \<le> length (mem c)"
  shows "\<exists>c'. exec c = Inr c' \<and>
           (\<forall>ip' w'. prefixScan (mem c') (regfile c' rip) 32
                        = Inr (ip', 0x58 + word_of_nat r, w') \<longrightarrow>
              (\<exists>c''. exec c' = Inr c'' \<and> regfile c'' r = regfile c r \<and>
                     regfile c'' rsp = regfile c rsp))"
proof -
  define sp where "sp = regfile c rsp"
  have sp8: "unat (sp - 8) + nat 8 \<le> length (mem c)"
    using assms(4,5) by (simp add: sp_def unat_minus_8)
  have tb: "take_bit 64 (regfile c r) = regfile c r"
    by (simp add: take_bit_word_eq_self)
  from roundtrip_any_width [OF _ sp8 assms(1), of "regfile c r"] tb
  obtain m' where w: "writeBytes (mem c) (sp - 8) 8 (regfile c r) = Inr m'"
    and rd: "readBytes m' (sp - 8) 8 = Inr (regfile c r)"
    by auto
  define c' where "c' = c\<lparr>mem := m', regfile := (regfile c)(rsp := sp - 8, rip := ip + 1)\<rparr>"
  have r18: "r < 18" using assms(2) by simp
  have ex: "exec c = Inr c'"
    using assms(3) w push_opcode [OF assms(2)] r18
    by (simp add: exec_step step_def push_def advance_ok c'_def sp_def)
  have "\<exists>c''. exec c' = Inr c'' \<and> regfile c'' r = regfile c r \<and> regfile c'' rsp = regfile c rsp"
    if "prefixScan (mem c') (regfile c' rip) 32 = Inr (ip', 0x58 + word_of_nat r, w')"
    for ip' w'
  proof -
    have "exec c' = Inr (c'\<lparr>regfile := (regfile c')
                          (r := regfile c r, rsp := sp - 8 + 8, rip := ip' + 1)\<rparr>)"
      using that rd pop_opcode [OF assms(2)] r18
      by (simp add: exec_step step_def pop_def advance_ok c'_def Let_def)
    then show ?thesis
      using assms(2) by (auto simp: sp_def)
  qed
  with ex show ?thesis by blast
qed

theorem push_pop_inverse_witness:
  "length (mem \<lparr>proc = None, mem = [0x51, 0x59, 0x54, 0x5C, 0, 0, 0, 0, 0, 0, 0, 0, 0, 0, 0, 0],
                regfile = (\<lambda>r. 0)(rcx := 0x1122334455667788, rsp := 16)\<rparr>) \<le> maxInt \<and>
   (1 :: nat) < 8 \<and>
   prefixScan [0x51, 0x59, 0x54, 0x5C, 0, 0, 0, 0, 0, 0, 0, 0, 0, 0, 0, 0] 0 32
     = Inr (0, 0x50 + word_of_nat 1, 32) \<and>
   8 \<le> unat (16 :: uint64) \<and>
   unat (16 :: uint64) \<le> length [0x51, 0x59, 0x54, 0x5C, 0, 0, 0, 0, 0, 0, 0, 0, 0, 0, 0, 0 :: byte] \<and>
   exec \<lparr>proc = None, mem = [0x51, 0x59, 0x54, 0x5C, 0, 0, 0, 0, 0, 0, 0, 0, 0, 0, 0, 0],
         regfile = (\<lambda>r. 0)(rcx := 0x1122334455667788, rsp := 16)\<rparr>
     = Inr \<lparr>proc = None,
            mem = [0x51, 0x59, 0x54, 0x5C, 0, 0, 0, 0, 0x88, 0x77, 0x66, 0x55, 0x44, 0x33, 0x22, 0x11],
            regfile = (\<lambda>r. 0)(rcx := 0x1122334455667788, rsp := 8, rip := 1)\<rparr> \<and>
   prefixScan [0x51, 0x59, 0x54, 0x5C, 0, 0, 0, 0, 0x88, 0x77, 0x66, 0x55, 0x44, 0x33, 0x22, 0x11] 1 32
     = Inr (1, 0x58 + word_of_nat 1, 32) \<and>
   (\<exists>c''. exec \<lparr>proc = None,
            mem = [0x51, 0x59, 0x54, 0x5C, 0, 0, 0, 0, 0x88, 0x77, 0x66, 0x55, 0x44, 0x33, 0x22, 0x11],
            regfile = (\<lambda>r. 0)(rcx := 0x1122334455667788, rsp := 8, rip := 1)\<rparr> = Inr c'' \<and>
          regfile c'' rcx = 0x1122334455667788 \<and> regfile c'' rsp = 16)"
proof -
  let ?m = "[0x51, 0x59, 0x54, 0x5C, 0, 0, 0, 0, 0, 0, 0, 0, 0, 0, 0, 0 :: byte]"
  let ?c = "\<lparr>proc = None, mem = ?m,
             regfile = (\<lambda>r. 0)(rcx := 0x1122334455667788, rsp := 16)\<rparr>"
  let ?m' = "[0x51, 0x59, 0x54, 0x5C, 0, 0, 0, 0, 0x88, 0x77, 0x66, 0x55, 0x44, 0x33, 0x22, 0x11 :: byte]"
  let ?c' = "\<lparr>proc = None, mem = ?m',
             regfile = (\<lambda>r. 0)(rcx := 0x1122334455667788, rsp := 8, rip := 1)\<rparr>"
  have l: "length (mem ?c) \<le> maxInt"
    by (simp add: maxInt_def)
  have p: "prefixScan (mem ?c) (regfile ?c rip) 32 = Inr (0, 0x50 + word_of_nat 1, 32)"
    by (simp add: prefixScan.simps prefixBytes_def inRange_def maxInt_def)
  have e: "exec ?c = Inr ?c'"
    by (simp add: exec_step step_def prefixScan.simps prefixBytes_def inRange_def maxInt_def
          push_def advance_ok writeBytes_def writeBytes_loop.simps)
  have p': "prefixScan (mem ?c') (regfile ?c' rip) 32 = Inr (1, 0x58 + word_of_nat 1, 32)"
    by (simp add: prefixScan.simps prefixBytes_def inRange_def maxInt_def)
  from push_pop_inverse [of ?c 1 0 32, OF l _ p] e p'
  have "\<exists>c''. exec ?c' = Inr c'' \<and> regfile c'' 1 = regfile ?c 1 \<and>
          regfile c'' rsp = regfile ?c rsp"
    by auto
  with l p e p' show ?thesis
    by simp
qed

lemma byte_neq: "unat (b :: byte) = k \<Longrightarrow> k \<noteq> unat (b' :: byte) \<Longrightarrow> b \<noteq> b'"
  by auto

lemma movImm_opcode:
  assumes "r < 8"
  shows "\<not> (0xB8 + word_of_nat r :: byte) < 0x58" and "\<not> (0xB8 + word_of_nat r :: byte) < 0x60"
    and "(0xB8 + word_of_nat r :: byte) \<noteq> 0x89"
    and "0xB8 \<le> (0xB8 + word_of_nat r :: byte)" and "(0xB8 + word_of_nat r :: byte) < 0xC0"
    and "unat (0xB8 + word_of_nat r - 0xB8 :: byte) = r"
    and "(0xB8 + word_of_nat r :: byte) \<noteq> 0x48" and "(0xB8 + word_of_nat r :: byte) \<noteq> 0x66"
proof -
  have u: "unat (0xB8 + word_of_nat r :: byte) = 184 + r"
    using opcode_register [OF assms, of 184] by simp
  show "\<not> (0xB8 + word_of_nat r :: byte) < 0x58" and "\<not> (0xB8 + word_of_nat r :: byte) < 0x60"
    and "0xB8 \<le> (0xB8 + word_of_nat r :: byte)" and "(0xB8 + word_of_nat r :: byte) < 0xC0"
    using u assms by (simp_all add: word_le_nat_alt word_less_nat_alt)
  show "unat (0xB8 + word_of_nat r - 0xB8 :: byte) = r"
    using assms by (simp add: unat_of_nat take_bit_nat_eq_self)
  show "(0xB8 + word_of_nat r :: byte) \<noteq> 0x89"
    by (rule byte_neq [OF u]) simp
  show "(0xB8 + word_of_nat r :: byte) \<noteq> 0x48"
    by (rule byte_neq [OF u]) simp
  show "(0xB8 + word_of_nat r :: byte) \<noteq> 0x66"
    by (rule byte_neq [OF u]) simp
qed

lemma prefixScan_movImm:
  assumes "inRange m ip" and "m ! unat ip = 0xB8 + word_of_nat r" and "r < 8"
  shows "prefixScan m ip w = Inr (ip, 0xB8 + word_of_nat r, w)"
proof -
  have n1: "m ! unat ip \<noteq> 0x48" and n2: "m ! unat ip \<noteq> 0x66"
    unfolding assms(2) by (rule movImm_opcode [OF assms(3)])+
  from prefixScan_opcode [OF assms(1) n1 n2, of w] show ?thesis
    unfolding assms(2) .
qed

lemma take_drop_Cons:
  assumes "take (Suc n) (drop k m) = x # xs"
  shows "k < length m \<and> m ! k = x \<and> take n (drop (Suc k) m) = xs"
proof -
  from assms have k: "k < length m"
    by (cases "k < length m") auto
  then have "drop k m = m ! k # drop (Suc k) m"
    by (simp add: Cons_nth_drop_Suc)
  with assms k show ?thesis by simp
qed

text \<open>
  The move of an immediate once the scan has found its opcode: the register receives
  the little-endian value of the \<open>w div 8\<close> bytes after the opcode, and \<open>rip\<close> passes
  them and the opcode.
\<close>

lemma movImm_step:
  assumes "length (mem c) \<le> maxInt" and "r < 8"
    and "prefixScan (mem c) (regfile c rip) 32 = Inr (ip, 0xB8 + word_of_nat r, w)"
    and "0 \<le> w" and "unat ip + 1 + nat (w div 8) \<le> length (mem c)"
  shows "exec c = Inr (c\<lparr>regfile := (regfile c)
            (r := littleEndian (take (nat (w div 8)) (drop (unat ip + 1) (mem c))),
             rip := ip + word_of_int (w div 8) + 1)\<rparr>)"
proof -
  have u: "unat (ip + 1) = unat ip + 1"
    using assms(1,5) by (simp add: unat_word_ariths maxInt_def)
  have "0 \<le> w div 8"
    using assms(4) by simp
  from readBytes_littleEndian [OF this, of "ip + 1" "mem c"] assms(1,5) u
  have "readBytes (mem c) (ip + 1) (w div 8)
          = Inr (littleEndian (take (nat (w div 8)) (drop (unat ip + 1) (mem c))))"
    by simp
  moreover have "r < 18" using assms(2) by simp
  ultimately show ?thesis
    using assms(3) movImm_opcode [OF assms(2)]
    by (simp add: exec_step step_def movImm_def advance_ok Let_def)
qed

text \<open>
  Claim C4 (immediate load). Let the bytes at \<open>rip\<close> be the prefix 0x48, the opcode
  0xB8 + r and eight immediate bytes; or the opcode and four immediate bytes with no
  prefix; or the prefix 0x66, the opcode and two immediate bytes. The step succeeds,
  register \<open>r\<close> receives the little-endian value of the immediate bytes with every bit
  above them 0 (no sign extension), and \<open>rip\<close> advances by the number of prefix bytes
  plus one plus the number of immediate bytes.
\<close>

theorem mov_immediate_by_width:
  assumes "length (mem c) \<le> maxInt" and "r < 8"
    and "(pre, n) \<in> {([0x48], 8), ([], 4), ([0x66], 2)}"
    and "length imm = n"
    and "take (length pre + 1 + n) (drop (unat (regfile c rip)) (mem c))
           = pre @ [0xB8 + word_of_nat r] @ imm"
  shows "exec c = Inr (c\<lparr>regfile := (regfile c)
            (r := littleEndian imm,
             rip := regfile c rip + word_of_nat (length pre + 1 + n))\<rparr>) \<and>
         drop_bit (8 * n) (littleEndian imm) = 0"
proof
  show "drop_bit (8 * n) (littleEndian imm) = 0"
    using assms(4) littleEndian_bound [of imm]
    by (metis drop_bit_take_bit diff_self_eq_0 take_bit_0 drop_bit_of_0)
next
  define ip0 where "ip0 = regfile c rip"
  define a where "a = unat ip0"
  define m where "m = mem c"
  have len: "a + (length pre + 1 + n) \<le> length m"
  proof -
    have "length (take (length pre + 1 + n) (drop a m)) = length pre + 1 + n"
      using assms(4,5) by (simp add: a_def ip0_def m_def del: length_take)
    then show ?thesis by simp
  qed
  have a1: "unat (ip0 + 1) = Suc a"
    using len assms(1) by (simp add: unat_word_ariths a_def m_def maxInt_def)
  have r0: "inRange m ip0"
    using len assms(1) by (simp add: inRange_def a_def m_def)
  have ms: "length (mem c) \<le> maxInt" "r < 8"
    by fact+
  from assms(3) consider "pre = [0x48]" "n = 8" | "pre = []" "n = 4" | "pre = [0x66]" "n = 2"
    by auto
  then have "exec c = Inr (c\<lparr>regfile := (regfile c)
            (r := littleEndian imm, rip := ip0 + word_of_nat (length pre + 1 + n))\<rparr>)"
  proof cases
    case 1
    with assms(5) have "take (Suc (Suc 8)) (drop a m) = 0x48 # (0xB8 + word_of_nat r) # imm"
      by (simp add: a_def ip0_def m_def)
    from take_drop_Cons [OF this]
    have b0: "m ! unat ip0 = 0x48"
      and t: "take (Suc 8) (drop (Suc a) m) = (0xB8 + word_of_nat r) # imm"
      by (simp_all add: a_def)
    from take_drop_Cons [OF t]
    have b1: "m ! unat (ip0 + 1) = 0xB8 + word_of_nat r"
      and im: "take 8 (drop (Suc (Suc a)) m) = imm"
      by (simp_all add: a1)
    have r1: "inRange m (ip0 + 1)"
      using len assms(1) a1 1 by (simp add: inRange_def m_def)
    have "prefixScan m ip0 32 = prefixScan m (ip0 + 1) 64"
      using r0 b0 by (rule prefixScan_48)
    also have "\<dots> = Inr (ip0 + 1, 0xB8 + word_of_nat r, 64)"
      using r1 b1 assms(2) by (rule prefixScan_movImm)
    finally have "prefixScan (mem c) (regfile c rip) 32 = Inr (ip0 + 1, 0xB8 + word_of_nat r, 64)"
      by (simp add: m_def ip0_def)
    from movImm_step [OF ms this] len 1 im a1 show ?thesis
      by (simp add: m_def ac_simps)
  next
    case 2
    with assms(5) have "take (Suc 4) (drop a m) = (0xB8 + word_of_nat r) # imm"
      by (simp add: a_def ip0_def m_def)
    from take_drop_Cons [OF this]
    have b1: "m ! unat ip0 = 0xB8 + word_of_nat r" and im: "take 4 (drop (Suc a) m) = imm"
      by (simp_all add: a_def)
    have "prefixScan m ip0 32 = Inr (ip0, 0xB8 + word_of_nat r, 32)"
      using r0 b1 assms(2) by (rule prefixScan_movImm)
    then have "prefixScan (mem c) (regfile c rip) 32 = Inr (ip0, 0xB8 + word_of_nat r, 32)"
      by (simp add: m_def ip0_def)
    from movImm_step [OF ms this] len 2 im show ?thesis
      by (simp add: m_def a_def ac_simps)
  next
    case 3
    with assms(5) have "take (Suc (Suc 2)) (drop a m) = 0x66 # (0xB8 + word_of_nat r) # imm"
      by (simp add: a_def ip0_def m_def eval_nat_numeral)
    from take_drop_Cons [OF this]
    have b0: "m ! unat ip0 = 0x66"
      and t: "take (Suc 2) (drop (Suc a) m) = (0xB8 + word_of_nat r) # imm"
      by (simp_all add: a_def)
    from take_drop_Cons [OF t]
    have b1: "m ! unat (ip0 + 1) = 0xB8 + word_of_nat r"
      and im: "take 2 (drop (Suc (Suc a)) m) = imm"
      by (simp_all add: a1)
    have r1: "inRange m (ip0 + 1)"
      using len assms(1) a1 3 by (simp add: inRange_def m_def)
    have "prefixScan m ip0 32 = prefixScan m (ip0 + 1) 16"
      using r0 b0 by (rule prefixScan_66)
    also have "\<dots> = Inr (ip0 + 1, 0xB8 + word_of_nat r, 16)"
      using r1 b1 assms(2) by (rule prefixScan_movImm)
    finally have "prefixScan (mem c) (regfile c rip) 32 = Inr (ip0 + 1, 0xB8 + word_of_nat r, 16)"
      by (simp add: m_def ip0_def)
    from movImm_step [OF ms this] len 3 im a1 show ?thesis
      by (simp add: m_def ac_simps)
  qed
  then show "exec c = Inr (c\<lparr>regfile := (regfile c)
            (r := littleEndian imm,
             rip := regfile c rip + word_of_nat (length pre + 1 + n))\<rparr>)"
    by (simp add: ip0_def)
qed

theorem mov_immediate_by_width_witness:
  "length (mem \<lparr>proc = None,
      mem = [0x48, 0xB9, 0x88, 0x77, 0x66, 0x55, 0x44, 0x33, 0x22, 0x11,
             0xBA, 0x01, 0x02, 0x03, 0x84, 0x66, 0xBB, 0xFE, 0xFF],
      regfile = (\<lambda>r. 0xFFFFFFFFFFFFFFFF)(rip := 0)\<rparr>) \<le> maxInt \<and>
   (1 :: nat) < 8 \<and>
   take (length [0x48 :: byte] + 1 + 8) (drop (unat (0 :: uint64))
      [0x48, 0xB9, 0x88, 0x77, 0x66, 0x55, 0x44, 0x33, 0x22, 0x11,
       0xBA, 0x01, 0x02, 0x03, 0x84, 0x66, 0xBB, 0xFE, 0xFF])
     = [0x48] @ [0xB8 + word_of_nat 1] @ [0x88, 0x77, 0x66, 0x55, 0x44, 0x33, 0x22, 0x11 :: byte] \<and>
   exec \<lparr>proc = None,
      mem = [0x48, 0xB9, 0x88, 0x77, 0x66, 0x55, 0x44, 0x33, 0x22, 0x11,
             0xBA, 0x01, 0x02, 0x03, 0x84, 0x66, 0xBB, 0xFE, 0xFF],
      regfile = (\<lambda>r. 0xFFFFFFFFFFFFFFFF)(rip := 0)\<rparr>
     = Inr \<lparr>proc = None,
      mem = [0x48, 0xB9, 0x88, 0x77, 0x66, 0x55, 0x44, 0x33, 0x22, 0x11,
             0xBA, 0x01, 0x02, 0x03, 0x84, 0x66, 0xBB, 0xFE, 0xFF],
      regfile = (\<lambda>r. 0xFFFFFFFFFFFFFFFF)(rcx := 0x1122334455667788, rip := 10)\<rparr> \<and>
   take (length ([] :: byte list) + 1 + 4) (drop (unat (10 :: uint64))
      [0x48, 0xB9, 0x88, 0x77, 0x66, 0x55, 0x44, 0x33, 0x22, 0x11,
       0xBA, 0x01, 0x02, 0x03, 0x84, 0x66, 0xBB, 0xFE, 0xFF])
     = [] @ [0xB8 + word_of_nat 2] @ [0x01, 0x02, 0x03, 0x84 :: byte] \<and>
   exec \<lparr>proc = None,
      mem = [0x48, 0xB9, 0x88, 0x77, 0x66, 0x55, 0x44, 0x33, 0x22, 0x11,
             0xBA, 0x01, 0x02, 0x03, 0x84, 0x66, 0xBB, 0xFE, 0xFF],
      regfile = (\<lambda>r. 0xFFFFFFFFFFFFFFFF)(rip := 10)\<rparr>
     = Inr \<lparr>proc = None,
      mem = [0x48, 0xB9, 0x88, 0x77, 0x66, 0x55, 0x44, 0x33, 0x22, 0x11,
             0xBA, 0x01, 0x02, 0x03, 0x84, 0x66, 0xBB, 0xFE, 0xFF],
      regfile = (\<lambda>r. 0xFFFFFFFFFFFFFFFF)(rdx := 0x84030201, rip := 15)\<rparr> \<and>
   take (length [0x66 :: byte] + 1 + 2) (drop (unat (15 :: uint64))
      [0x48, 0xB9, 0x88, 0x77, 0x66, 0x55, 0x44, 0x33, 0x22, 0x11,
       0xBA, 0x01, 0x02, 0x03, 0x84, 0x66, 0xBB, 0xFE, 0xFF])
     = [0x66] @ [0xB8 + word_of_nat 3] @ [0xFE, 0xFF :: byte] \<and>
   exec \<lparr>proc = None,
      mem = [0x48, 0xB9, 0x88, 0x77, 0x66, 0x55, 0x44, 0x33, 0x22, 0x11,
             0xBA, 0x01, 0x02, 0x03, 0x84, 0x66, 0xBB, 0xFE, 0xFF],
      regfile = (\<lambda>r. 0xFFFFFFFFFFFFFFFF)(rip := 15)\<rparr>
     = Inr \<lparr>proc = None,
      mem = [0x48, 0xB9, 0x88, 0x77, 0x66, 0x55, 0x44, 0x33, 0x22, 0x11,
             0xBA, 0x01, 0x02, 0x03, 0x84, 0x66, 0xBB, 0xFE, 0xFF],
      regfile = (\<lambda>r. 0xFFFFFFFFFFFFFFFF)(rbx := 0xFFFE, rip := 19)\<rparr>"
proof -
  let ?m = "[0x48, 0xB9, 0x88, 0x77, 0x66, 0x55, 0x44, 0x33, 0x22, 0x11,
             0xBA, 0x01, 0x02, 0x03, 0x84, 0x66, 0xBB, 0xFE, 0xFF :: byte]"
  let ?c = "\<lambda>a. \<lparr>proc = None, mem = ?m, regfile = (\<lambda>r. 0xFFFFFFFFFFFFFFFF)(rip := a)\<rparr>"
  have l: "length (mem (?c a)) \<le> maxInt" for a
    by (simp add: maxInt_def)
  have t1: "take (length [0x48 :: byte] + 1 + 8) (drop (unat (regfile (?c 0) rip)) (mem (?c 0)))
      = [0x48] @ [0xB8 + word_of_nat 1] @ [0x88, 0x77, 0x66, 0x55, 0x44, 0x33, 0x22, 0x11]"
    by simp
  have t2: "take (length ([] :: byte list) + 1 + 4) (drop (unat (regfile (?c 10) rip)) (mem (?c 10)))
      = [] @ [0xB8 + word_of_nat 2] @ [0x01, 0x02, 0x03, 0x84]"
    by simp
  have t3: "take (length [0x66 :: byte] + 1 + 2) (drop (unat (regfile (?c 15) rip)) (mem (?c 15)))
      = [0x66] @ [0xB8 + word_of_nat 3] @ [0xFE, 0xFF]"
    by simp
  from mov_immediate_by_width [OF l _ _ _ t1] mov_immediate_by_width [OF l _ _ _ t2]
    mov_immediate_by_width [OF l _ _ _ t3] t1 t2 t3
  show ?thesis
    by (simp add: maxInt_def fun_upd_twist)
qed

section \<open>Registers that no instruction writes\<close>

text \<open>
  Every instruction writes \<open>rsp\<close>, \<open>rip\<close> or a register whose index comes from three
  bits of the instruction; the slots from 8 on, \<open>rip\<close> apart, keep their value, also in
  the state a panic leaves.
\<close>

lemma push_frame:
  shows "push c b = Inr c' \<Longrightarrow> 8 \<le> r \<Longrightarrow> regfile c' r = regfile c r"
    and "push c b = Inl (e, c') \<Longrightarrow> 8 \<le> r \<Longrightarrow> regfile c' r = regfile c r"
  by (auto simp: push_def regfile_get_def regfile_set_def split: sum.splits if_splits prod.splits)

lemma pop_frame:
  assumes "0x58 \<le> b" and "b < 0x60" and "8 \<le> r"
  shows "pop c b = Inr c' \<Longrightarrow> regfile c' r = regfile c r"
    and "pop c b = Inl (e, c') \<Longrightarrow> regfile c' r = regfile c r"
proof -
  from pop_register [OF assms(1,2)] assms(3) have n: "unat (b - 0x58) \<noteq> r" by simp
  show "pop c b = Inr c' \<Longrightarrow> regfile c' r = regfile c r"
    using n assms(3)
    by (auto simp: pop_def Let_def regfile_get_def regfile_set_def
          split: sum.splits if_splits prod.splits)
  show "pop c b = Inl (e, c') \<Longrightarrow> regfile c' r = regfile c r"
    using n assms(3)
    by (auto simp: pop_def Let_def regfile_get_def regfile_set_def
          split: sum.splits if_splits prod.splits)
qed

lemma movRegReg_frame:
  assumes "8 \<le> r"
  shows "movRegReg c ip = Inr (c', ip') \<Longrightarrow> regfile c' r = regfile c r"
    and "movRegReg c ip = Inl (e, c') \<Longrightarrow> regfile c' r = regfile c r"
proof -
  from mov_lhs_register [of "mem c ! unat (ip + 1)"] assms
  have n: "unat (mem c ! unat (ip + 1) AND 7) \<noteq> r" by simp
  show "movRegReg c ip = Inr (c', ip') \<Longrightarrow> regfile c' r = regfile c r"
    using n
    by (auto simp: movRegReg_def Let_def regfile_get_def regfile_set_def
          split: sum.splits if_splits prod.splits)
  show "movRegReg c ip = Inl (e, c') \<Longrightarrow> regfile c' r = regfile c r"
    using n
    by (auto simp: movRegReg_def Let_def regfile_get_def regfile_set_def
          split: sum.splits if_splits prod.splits)
qed

lemma movImm_frame:
  assumes "0xB8 \<le> b" and "b < 0xC0" and "8 \<le> r"
  shows "movImm c ip b w = Inr (c', ip') \<Longrightarrow> regfile c' r = regfile c r"
    and "movImm c ip b w = Inl (e, c') \<Longrightarrow> regfile c' r = regfile c r"
proof -
  from movImm_register [OF assms(1,2)] assms(3) have n: "unat (b - 0xB8) \<noteq> r" by simp
  show "movImm c ip b w = Inr (c', ip') \<Longrightarrow> regfile c' r = regfile c r"
    using n
    by (auto simp: movImm_def Let_def regfile_get_def regfile_set_def
          split: sum.splits if_splits prod.splits)
  show "movImm c ip b w = Inl (e, c') \<Longrightarrow> regfile c' r = regfile c r"
    using n
    by (auto simp: movImm_def Let_def regfile_get_def regfile_set_def
          split: sum.splits if_splits prod.splits)
qed

lemma ret_frame:
  shows "ret c = Inr c' \<Longrightarrow> 8 \<le> r \<Longrightarrow> r \<noteq> rip \<Longrightarrow> regfile c' r = regfile c r"
    and "ret c = Inl (e, c') \<Longrightarrow> 8 \<le> r \<Longrightarrow> r \<noteq> rip \<Longrightarrow> regfile c' r = regfile c r"
  by (auto simp: ret_def regfile_get_def regfile_set_def split: sum.splits if_splits prod.splits)

lemma unknownInstruction_frame:
  "unknownInstruction c ip = Inl (e, c') \<Longrightarrow> c' = c"
  by (auto simp: unknownInstruction_def split: sum.splits)

lemma advance_frame:
  "advance c ip = Inr c' \<Longrightarrow> r \<noteq> rip \<Longrightarrow> regfile c' r = regfile c r"
  by (auto simp: advance_ok)

lemma step_frame:
  assumes "step c ip0 = Inr c' \<or> step c ip0 = Inl (e, c')" and "8 \<le> r" and "r \<noteq> rip"
  shows "regfile c' r = regfile c r"
proof (cases "prefixScan (mem c) ip0 32")
  case (Inl e')
  with assms(1) show ?thesis
    by (auto simp: step_def)
next
  case (Inr t)
  then obtain ip b w where t: "prefixScan (mem c) ip0 32 = Inr (ip, b, w)"
    by (cases t) auto
  consider (push) "0x50 \<le> b \<and> b < 0x58"
    | (pop) "\<not> (0x50 \<le> b \<and> b < 0x58)" "0x58 \<le> b \<and> b < 0x60"
    | (mov) "\<not> (0x50 \<le> b \<and> b < 0x58)" "\<not> (0x58 \<le> b \<and> b < 0x60)" "b = 0x89"
    | (imm) "\<not> (0x50 \<le> b \<and> b < 0x58)" "\<not> (0x58 \<le> b \<and> b < 0x60)" "b \<noteq> 0x89"
        "0xB8 \<le> b \<and> b < 0xC0"
    | (ret) "\<not> (0x50 \<le> b \<and> b < 0x58)" "\<not> (0x58 \<le> b \<and> b < 0x60)" "b \<noteq> 0x89"
        "\<not> (0xB8 \<le> b \<and> b < 0xC0)" "b = 0xC3"
    | (other) "\<not> (0x50 \<le> b \<and> b < 0x58)" "\<not> (0x58 \<le> b \<and> b < 0x60)" "b \<noteq> 0x89"
        "\<not> (0xB8 \<le> b \<and> b < 0xC0)" "b \<noteq> 0xC3"
    by blast
  then show ?thesis
  proof cases
    case push
    with assms(1) t have "(\<exists>c1. push c b = Inr c1 \<and> advance c1 ip = Inr c') \<or>
        push c b = Inl (e, c')"
      by (auto simp: step_def advance_ok split: sum.splits)
    then show ?thesis
    proof (elim disjE exE conjE)
      fix c1
      assume "push c b = Inr c1" and "advance c1 ip = Inr c'"
      from push_frame(1) [OF this(1) assms(2)] advance_frame [OF this(2) assms(3)]
      show ?thesis by simp
    next
      assume "push c b = Inl (e, c')"
      from push_frame(2) [OF this assms(2)] show ?thesis .
    qed
  next
    case pop
    with assms(1) t have "(\<exists>c1. pop c b = Inr c1 \<and> advance c1 ip = Inr c') \<or>
        pop c b = Inl (e, c')"
      by (auto simp: step_def advance_ok split: sum.splits)
    then show ?thesis
    proof (elim disjE exE conjE)
      fix c1
      assume "pop c b = Inr c1" and "advance c1 ip = Inr c'"
      from pop_frame(1) [OF _ _ assms(2) this(1)] pop(2) advance_frame [OF this(2) assms(3)]
      show ?thesis by simp
    next
      assume "pop c b = Inl (e, c')"
      from pop_frame(2) [OF _ _ assms(2) this] pop(2) show ?thesis by simp
    qed
  next
    case mov
    with assms(1) t have "(\<exists>c1 ip1. movRegReg c ip = Inr (c1, ip1) \<and> advance c1 ip1 = Inr c') \<or>
        movRegReg c ip = Inl (e, c')"
      by (auto simp: step_def advance_ok split: sum.splits)
    then show ?thesis
    proof (elim disjE exE conjE)
      fix c1 ip1
      assume "movRegReg c ip = Inr (c1, ip1)" and "advance c1 ip1 = Inr c'"
      from movRegReg_frame(1) [OF assms(2) this(1)] advance_frame [OF this(2) assms(3)]
      show ?thesis by simp
    next
      assume "movRegReg c ip = Inl (e, c')"
      from movRegReg_frame(2) [OF assms(2) this] show ?thesis .
    qed
  next
    case imm
    with assms(1) t have "(\<exists>c1 ip1. movImm c ip b w = Inr (c1, ip1) \<and> advance c1 ip1 = Inr c') \<or>
        movImm c ip b w = Inl (e, c')"
      by (auto simp: step_def advance_ok split: sum.splits)
    then show ?thesis
    proof (elim disjE exE conjE)
      fix c1 ip1
      assume "movImm c ip b w = Inr (c1, ip1)" and "advance c1 ip1 = Inr c'"
      from movImm_frame(1) [OF _ _ assms(2) this(1)] imm(4) advance_frame [OF this(2) assms(3)]
      show ?thesis by simp
    next
      assume "movImm c ip b w = Inl (e, c')"
      from movImm_frame(2) [OF _ _ assms(2) this] imm(4) show ?thesis by simp
    qed
  next
    case ret
    with assms(1) t have "ret c = Inr c' \<or> ret c = Inl (e, c')"
      by (auto simp: step_def)
    with assms(2,3) show ?thesis
      by (auto dest: ret_frame)
  next
    case other
    with assms(1) t have "unknownInstruction c ip = Inl (e, c')"
      by (auto simp: step_def unknownInstruction_fails)
    from unknownInstruction_frame [OF this] show ?thesis
      by simp
  qed
qed

lemma exec_frame:
  "exec c = Inr c' \<or> exec c = Inl (e, c') \<Longrightarrow> 8 \<le> r \<Longrightarrow> r \<noteq> rip \<Longrightarrow>
   regfile c' r = regfile c r"
  using step_frame [of c "regfile c rip" c' e r] by (simp add: exec_step)

lemma bootstrap_frame:
  shows "bootstrap c p = Inr (c', sp) \<Longrightarrow> 8 \<le> r \<Longrightarrow> r \<noteq> rip \<Longrightarrow>
      regfile c' r = regfile c r"
    and "bootstrap c p = Inl (e, c') \<Longrightarrow> 8 \<le> r \<Longrightarrow> r \<noteq> rip \<Longrightarrow>
      regfile c' r = regfile c r"
  by (auto simp: bootstrap_def Let_def split: sum.splits if_splits prod.splits)

text \<open>
  Claim C10. In every state reachable from a freshly constructed cpu, by the bootstrap
  of any image and any number of engine steps, the registers \<open>r8\<close> to \<open>r15\<close> and
  \<open>rflags\<close> hold 0.
\<close>

theorem high_registers_stay_zero:
  assumes "reachable c"
    and "r \<in> {r8, r9, r10, r11, r12, r13, r14, r15, rflags}"
  shows "regfile c r = 0"
proof -
  from assms(2) have r: "8 \<le> r" "r \<noteq> rip"
    by auto
  from assms(1) show ?thesis
  proof induction
    case (fresh memory c)
    then show ?case
      by (auto simp: newCPU_def split: if_splits)
  next
    case (boot c p c' sp)
    with bootstrap_frame(1) [of c p c' sp r] r show ?case by simp
  next
    case (boot_panic c p e c')
    with bootstrap_frame(2) [of c p e c' r] r show ?case by simp
  next
    case (next_step c c')
    with exec_frame [of c c' _ r] r show ?case by simp
  next
    case (step_panic c e c')
    with exec_frame [of c c' e r] r show ?case by simp
  qed
qed

text \<open>The states that the loop and \<open>run\<close> end in are reachable.\<close>

lemma loop_reachable:
  "reachable c \<Longrightarrow>
   loop ticks c era = Break c' \<or> loop ticks c era = Panicked e c' \<or> loop ticks c era = Waiting c'
   \<Longrightarrow> reachable c'"
proof (induction ticks arbitrary: c)
  case 0
  then show ?case by simp
next
  case (Suc ticks)
  show ?case
  proof (cases "regfile c rip = era")
    case True
    with Suc.prems show ?thesis by simp
  next
    case False
    show ?thesis
    proof (cases "exec c")
      case (Inl a)
      then obtain e1 c1 where "exec c = Inl (e1, c1)" by (cases a) auto
      with Suc.prems False reachable.step_panic [of c e1 c1] show ?thesis
        by (auto simp: exec_step)
    next
      case (Inr c1)
      with Suc.prems(1) have "reachable c1"
        by (rule reachable.next_step)
      with Suc.IH [of c1] Suc.prems(2) False Inr show ?thesis
        by (simp add: exec_step)
    qed
  qed
qed

theorem high_registers_stay_zero_witness:
  "reachable \<lparr>proc = None, mem = [0xB8, 5, 0, 0, 0, 0xC3, 0, 0, 8, 0, 0, 0, 0, 0, 0, 0],
              regfile = (\<lambda>r. 0)(rsp := 8, rax := 5, rip := 5)\<rparr> \<and>
   r8 \<in> {r8, r9, r10, r11, r12, r13, r14, r15, rflags} \<and>
   regfile \<lparr>proc = None, mem = [0xB8, 5, 0, 0, 0, 0xC3, 0, 0, 8, 0, 0, 0, 0, 0, 0, 0],
            regfile = (\<lambda>r. 0)(rsp := 8, rax := 5, rip := 5)\<rparr> r8 = 0"
proof -
  let ?c0 = "\<lparr>proc = None, mem = replicate 16 0, regfile = (\<lambda>r. 0)\<rparr>"
  let ?c1 = "\<lparr>proc = None, mem = [0xB8, 5, 0, 0, 0, 0xC3, 0, 0, 8, 0, 0, 0, 0, 0, 0, 0],
              regfile = (\<lambda>r. 0)(rip := 0, rsp := 8)\<rparr>"
  let ?c2 = "\<lparr>proc = None, mem = [0xB8, 5, 0, 0, 0, 0xC3, 0, 0, 8, 0, 0, 0, 0, 0, 0, 0],
              regfile = (\<lambda>r. 0)(rsp := 8, rax := 5, rip := 5)\<rparr>"
  have rep: "replicate 16 (0 :: byte) = [0, 0, 0, 0, 0, 0, 0, 0, 0, 0, 0, 0, 0, 0, 0, 0]"
    by (simp add: eval_nat_numeral)
  have "newCPU 16 = Inr ?c0"
    by (simp add: newCPU_def maxInt_def)
  then have r0: "reachable ?c0"
    by (rule reachable.fresh)
  have "bootstrap ?c0 \<lparr>startAddress = 0, entryPoint = 0, bin = [0xB8, 5, 0, 0, 0, 0xC3]\<rparr>
          = Inr (?c1, 8)"
    by (simp add: rep bootstrap_def slice_def maxInt_def writeBytes_def writeBytes_loop.simps
          inRange_def)
  with r0 have r1: "reachable ?c1"
    by (rule reachable.boot)
  have "exec ?c1 = Inr ?c2"
    by (simp add: exec_step step_def prefixScan.simps prefixBytes_def inRange_def maxInt_def
          movImm_def advance_ok readBytes_def readBytes_loop.simps fun_upd_twist)
  with r1 have r2: "reachable ?c2"
    by (rule reachable.next_step)
  from high_registers_stay_zero [OF r2, of r8] r2 show ?thesis
    by simp
qed

section \<open>The debugger's value resolver\<close>

text \<open>
  The digit of the parser and the digit of the specification agree on every byte: the
  256 cases are evaluated.
\<close>

lemma digit_enum:
  "\<forall>k \<in> {..<256}. map_option unat (digit (of_nat k)) = digitValue k"
  by code_simp

lemma digit_digitValue: "map_option unat (digit (of_char c)) = digitValue (of_char c)"
proof -
  have "(of_char c :: nat) \<in> {..<256}"
    by simp
  with digit_enum have "map_option unat (digit (of_nat (of_char c)))
      = digitValue (of_char c)"
    by blast
  then show ?thesis
    by (simp only: of_nat_of_char)
qed

lemma digitValue_bound: "digitValue k = Some d \<Longrightarrow> d < 36"
  by (auto simp: digitValue_def split: if_splits)

lemma digit_cases:
  "(digit (of_char c) = None \<and> digitValue (of_char c) = None) \<or>
   (\<exists>d. digit (of_char c) = Some d \<and> digitValue (of_char c) = Some (unat d) \<and> unat d < 36)"
  using digit_digitValue [of c] digitValue_bound [of "of_char c"]
  by (cases "digit (of_char c :: byte)") auto


lemma numeralValue_mono:
  "1 \<le> base \<Longrightarrow> numeralValue base cs a = Some v \<Longrightarrow> a \<le> v"
proof (induction cs arbitrary: a)
  case Nil
  then show ?case by simp
next
  case (Cons c cs)
  from Cons.prems obtain d where d: "digitValue (of_char c) = Some d" "d < base"
    and r: "numeralValue base cs (a * base + d) = Some v"
    by (auto split: option.splits if_splits)
  from Cons.IH [OF Cons.prems(1) r] have "a * base + d \<le> v" .
  moreover have "a \<le> a * base"
    using Cons.prems(1) by (cases base) simp_all
  ultimately show ?case by linarith
qed

lemma cutoff_iff:
  assumes "2 \<le> base" and "base \<le> 36"
  shows "cutoff base \<le> n \<longleftrightarrow> 2 ^ 64 \<le> unat n * base"
proof -
  have b: "unat (word_of_nat base :: uint64) = base"
    using assms by (simp add: unat_of_nat take_bit_nat_eq_self)
  have m: "unat (- 1 :: uint64) = 2 ^ 64 - 1"
    by (simp add: unsigned_minus_1_eq_mask mask_eq_exp_minus_1)
  have q: "(2 ^ 64 - 1) div base < 2 ^ 63"
  proof -
    have "(2 ^ 64 - 1) div base \<le> (2 ^ 64 - 1) div (2 :: nat)"
      using assms(1) by (intro div_le_mono2) simp_all
    then show ?thesis by simp
  qed
  have "unat (cutoff base) = (2 ^ 64 - 1) div base + 1"
    using q by (simp add: cutoff_def unat_word_ariths unat_div b m)
  then have "cutoff base \<le> n \<longleftrightarrow> (2 ^ 64 - 1) div base < unat n"
    unfolding word_le_nat_alt by arith
  also have "\<dots> \<longleftrightarrow> 2 ^ 64 - 1 < unat n * base"
    using assms(1) by (simp add: div_less_iff_less_mult)
  also have "\<dots> \<longleftrightarrow> 2 ^ 64 \<le> unat n * base"
    by auto
  finally show ?thesis .
qed


lemma unat_mult_base:
  assumes "base \<le> 36" and "unat (n :: uint64) * base < 2 ^ 64"
  shows "unat (n * word_of_nat base) = unat n * base"
proof -
  have "unat (word_of_nat base :: uint64) = base"
    using assms(1) by (simp add: unat_of_nat take_bit_nat_eq_self)
  with assms(2) show ?thesis
    by (simp add: unat_word_ariths)
qed

lemma add_overflow_iff:
  "(x :: uint64) + y < x \<longleftrightarrow> 2 ^ 64 \<le> unat x + unat y"
  using no_olen_add_nat [of x y] by (auto simp: not_le)

lemma maxVal_top: "\<not> maxVal < (x :: uint64)"
  using unsigned_less [of x, where ?'a = nat] by (simp add: maxVal_def word_less_nat_alt)

text \<open>
  The parser against the specification of numerals: from an accumulator \<open>n\<close> it ends
  without error exactly when the remaining string consists of digits below the base and
  the value reached fits 64 bits, and then it returns that value.
\<close>

lemma parseDigits_correct:
  assumes "2 \<le> base" and "base \<le> 36"
  shows "parseDigits base cs n = (r, None) \<longleftrightarrow>
         (\<exists>v. numeralValue base cs (unat n) = Some v \<and> v < 2 ^ 64 \<and> r = word_of_nat v)"
proof (induction cs arbitrary: n)
  case Nil
  show ?case
    using unsigned_less [of n, where ?'a = nat] by auto
next
  case (Cons c cs)
  from digit_cases [of c] show ?case
  proof (elim disjE exE conjE)
    assume "digit (of_char c) = None" and "digitValue (of_char c) = None"
    then show ?thesis by simp
  next
    fix d
    assume d: "digit (of_char c) = Some d" and dv: "digitValue (of_char c) = Some (unat d)"
      and d36: "unat d < 36"
    show ?thesis
    proof (cases "unat d < base")
      case False
      with d dv show ?thesis by simp
    next
      case True
      have ud: "unat (ucast d :: uint64) = unat d"
        using d36 by (simp add: unsigned_ucast_eq take_bit_nat_eq_self)
      show ?thesis
      proof (cases "2 ^ 64 \<le> unat n * base + unat d")
        case over: True
        have "\<not> (\<exists>v. numeralValue base cs (unat n * base + unat d) = Some v \<and> v < 2 ^ 64)"
          using numeralValue_mono [of base cs "unat n * base + unat d"] assms(1) over
          by fastforce
        moreover have "snd (parseDigits base (c # cs) n) = Some ErrRange"
        proof (cases "2 ^ 64 \<le> unat n * base")
          case True
          with d \<open>unat d < base\<close> show ?thesis
            by (simp add: cutoff_iff [OF assms])
        next
          case False
          then have m: "unat (n * word_of_nat base) = unat n * base"
            using assms(2) by (intro unat_mult_base) simp_all
          with over have "n * word_of_nat base + ucast d < n * word_of_nat base"
            by (simp add: add_overflow_iff ud)
          with d \<open>unat d < base\<close> False show ?thesis
            by (simp add: cutoff_iff [OF assms])
        qed
        ultimately show ?thesis
          using dv True by auto
      next
        case fits: False
        then have nb: "\<not> 2 ^ 64 \<le> unat n * base"
          by simp
        then have m: "unat (n * word_of_nat base) = unat n * base"
          using assms(2) by (intro unat_mult_base) simp_all
        have no: "\<not> n * word_of_nat base + ucast d < n * word_of_nat base"
          using fits by (simp add: add_overflow_iff ud m)
        have u: "unat (n * word_of_nat base + ucast d) = unat n * base + unat d"
          using fits unat_add_lem [of "n * word_of_nat base" "ucast d :: uint64"]
          by (simp add: m ud)
        have "parseDigits base (c # cs) n
            = parseDigits base cs (n * word_of_nat base + ucast d)"
          using d True nb no by (simp add: cutoff_iff [OF assms] maxVal_top)
        with Cons.IH [of "n * word_of_nat base + ucast d"] dv True show ?thesis
          by (simp add: u)
      qed
    qed
  qed
qed

lemma ParseUint_correct:
  assumes "2 \<le> base" and "base \<le> 36"
  shows "ParseUint s base = (r, None) \<longleftrightarrow> (\<exists>v. denotes base s v \<and> v < 2 ^ 64 \<and> r = word_of_nat v)"
  using parseDigits_correct [OF assms, of s 0 r] assms
  by (auto simp: ParseUint_def denotes_def)

lemma ParseUint_succeeds_iff:
  assumes "2 \<le> base" and "base \<le> 36"
  shows "snd (ParseUint s base) = None \<longleftrightarrow> (\<exists>n. denotes base s n \<and> n < 2 ^ 64)"
proof
  assume "snd (ParseUint s base) = None"
  then have "ParseUint s base = (fst (ParseUint s base), None)"
    by (cases "ParseUint s base") simp
  with ParseUint_correct [OF assms, of s "fst (ParseUint s base)"]
  show "\<exists>n. denotes base s n \<and> n < 2 ^ 64"
    by blast
next
  assume "\<exists>n. denotes base s n \<and> n < 2 ^ 64"
  then obtain n where "denotes base s n" and "n < 2 ^ 64"
    by blast
  with ParseUint_correct [OF assms, of s "word_of_nat n"]
  have "ParseUint s base = (word_of_nat n, None)"
    by blast
  then show "snd (ParseUint s base) = None"
    by simp
qed

lemma lookupRegister_Some: "lookupRegister xs t = Some r \<Longrightarrow> (r, t) \<in> set xs"
  by (induction xs t rule: lookupRegister.induct) (auto split: if_splits)

lemma lookupRegister_None: "lookupRegister xs t = None \<longleftrightarrow> t \<notin> snd ` set xs"
  by (induction xs t rule: lookupRegister.induct) (auto split: if_splits)

lemma unique_name:
  "distinct (map snd xs) \<Longrightarrow> (r, t) \<in> set xs \<Longrightarrow> (r', t) \<in> set xs \<Longrightarrow> r = r'"
  by (induction xs) (auto simp: image_iff)

lemma registerMap_names: "distinct (map snd registerMap)"
  by (simp add: registerMap_def)

lemma registerMap_length: "length registerMap = 18"
  by (simp add: registerMap_def)

lemma registerMap_index: "(r, t) \<in> set registerMap \<Longrightarrow> r < 18"
  by (auto simp: registerMap_def)

text \<open>The register found does not depend on the order in which the map is iterated.\<close>

lemma lookupRegister_order:
  assumes "set order = set registerMap"
  shows "(r, t) \<in> set registerMap \<Longrightarrow> lookupRegister order t = Some r"
    and "t \<notin> snd ` set registerMap \<Longrightarrow> lookupRegister order t = None"
proof -
  show "lookupRegister order t = Some r" if "(r, t) \<in> set registerMap"
  proof (cases "lookupRegister order t")
    case None
    with that assms show ?thesis
      by (force simp: lookupRegister_None)
  next
    case (Some r')
    then have "(r', t) \<in> set registerMap"
      using assms by (auto dest: lookupRegister_Some)
    with that Some show ?thesis
      by (auto dest: unique_name [OF registerMap_names])
  qed
  show "lookupRegister order t = None" if "t \<notin> snd ` set registerMap"
    using that assms by (simp add: lookupRegister_None)
qed

lemma ParseUint_bare_0x: "ParseUint ''0x'' 10 = ParseUint [] 16"
  by code_simp

lemma ParseUint_bare_0X: "ParseUint ''0X'' 10 = ParseUint [] 16"
  by code_simp

lemma ParseUint_hex_10: "ParseUint ''10'' 16 = (16, None)"
  by code_simp

lemma ParseUint_dec_16: "ParseUint ''16'' 10 = (16, None)"
  by code_simp

lemma resolve_register:
  assumes "set order = set registerMap" and "(reg, t) \<in> set registerMap"
  shows "resolveDebuggerValue_order order c t = (Inr (regfile c reg, None), c)"
  using lookupRegister_order(1) [OF assms] registerMap_index [OF assms(2)]
  by (simp add: resolveDebuggerValue_order_def)

lemma resolve_hex:
  assumes "set order = set registerMap" and "t \<notin> snd ` set registerMap"
    and "take 2 t = ''0x'' \<or> take 2 t = ''0X''"
  shows "resolveDebuggerValue_order order c t = (Inr (ParseUint (drop 2 t) 16), c)"
proof (cases "2 < length t")
  case True
  with lookupRegister_order(2) [OF assms(1,2)] assms(3) show ?thesis
    by (simp add: resolveDebuggerValue_order_def)
next
  case False
  with assms(3) have "t = ''0x'' \<or> t = ''0X''"
    by auto
  with lookupRegister_order(2) [OF assms(1,2)] show ?thesis
    by (auto simp: resolveDebuggerValue_order_def ParseUint_bare_0x ParseUint_bare_0X)
qed

lemma resolve_decimal:
  assumes "set order = set registerMap" and "t \<notin> snd ` set registerMap"
    and "take 2 t \<noteq> ''0x''" and "take 2 t \<noteq> ''0X''"
  shows "resolveDebuggerValue_order order c t = (Inr (ParseUint t 10), c)"
  using lookupRegister_order(2) [OF assms(1,2)] assms(3,4)
  by (simp add: resolveDebuggerValue_order_def)

text \<open>
  Claim C8 (resolver). For every order of iteration over the map of the eighteen
  register names, every cpu \<open>c\<close> and every token \<open>t\<close>: a register name resolves
  to the value of that register; another token with the prefix \<open>0x\<close> or \<open>0X\<close> resolves
  to what \<open>ParseUint\<close> returns for the rest in base 16; any other token to what it
  returns for the token in base 10; the three tokens of the specification resolve as it
  says; the cpu is left as it was; and the resolver returns without error exactly when
  the token is a register name, or has the prefix and the rest is a hexadecimal numeral
  below \<open>2 ^ 64\<close>, or has no prefix and is a decimal numeral below \<open>2 ^ 64\<close>, every other
  token giving an error.
\<close>

theorem resolveDebuggerValue_three_tiers:
  assumes "set order = set registerMap"
  shows "length registerMap = 18 \<and> distinct (map snd registerMap) \<and>
    (\<forall>reg. (reg, t) \<in> set registerMap \<longrightarrow>
       resolveDebuggerValue_order order c t = (Inr (regfile c reg, None), c)) \<and>
    (t \<notin> snd ` set registerMap \<and> (take 2 t = ''0x'' \<or> take 2 t = ''0X'') \<longrightarrow>
       resolveDebuggerValue_order order c t = (Inr (ParseUint (drop 2 t) 16), c)) \<and>
    (t \<notin> snd ` set registerMap \<and> take 2 t \<noteq> ''0x'' \<and> take 2 t \<noteq> ''0X'' \<longrightarrow>
       resolveDebuggerValue_order order c t = (Inr (ParseUint t 10), c)) \<and>
    resolveDebuggerValue_order order c ''0x10'' = (Inr (16, None), c) \<and>
    resolveDebuggerValue_order order c ''16'' = (Inr (16, None), c) \<and>
    resolveDebuggerValue_order order c ''rsp'' = (Inr (regfile c rsp, None), c) \<and>
    snd (resolveDebuggerValue_order order c t) = c \<and>
    (if t \<in> snd ` set registerMap \<or>
        ((take 2 t = ''0x'' \<or> take 2 t = ''0X'') \<and> (\<exists>n. denotes 16 (drop 2 t) n \<and> n < 2 ^ 64)) \<or>
        (take 2 t \<noteq> ''0x'' \<and> take 2 t \<noteq> ''0X'' \<and> (\<exists>n. denotes 10 t n \<and> n < 2 ^ 64))
     then \<exists>v. fst (resolveDebuggerValue_order order c t) = Inr (v, None)
     else \<exists>v e. fst (resolveDebuggerValue_order order c t) = Inr (v, Some e))"
proof -
  note reg = resolve_register [OF assms] and hex = resolve_hex [OF assms]
    and dec = resolve_decimal [OF assms]
  have names: "''0x10'' \<notin> snd ` set registerMap" "''16'' \<notin> snd ` set registerMap"
    "(rsp, ''rsp'') \<in> set registerMap"
    by (simp_all add: registerMap_def)
  have ex1: "resolveDebuggerValue_order order c ''0x10'' = (Inr (16, None), c)"
    using hex [OF names(1), of c] by (simp add: ParseUint_hex_10)
  have ex2: "resolveDebuggerValue_order order c ''16'' = (Inr (16, None), c)"
    using dec [OF names(2), of c] by (simp add: ParseUint_dec_16)
  have ex3: "resolveDebuggerValue_order order c ''rsp'' = (Inr (regfile c rsp, None), c)"
    using reg [OF names(3), of c] by simp
  consider (name) reg where "(reg, t) \<in> set registerMap"
    | (hex) "t \<notin> snd ` set registerMap" "take 2 t = ''0x'' \<or> take 2 t = ''0X''"
    | (dec) "t \<notin> snd ` set registerMap" "take 2 t \<noteq> ''0x''" "take 2 t \<noteq> ''0X''"
    by force
  then have last: "snd (resolveDebuggerValue_order order c t) = c \<and>
    (if t \<in> snd ` set registerMap \<or>
        ((take 2 t = ''0x'' \<or> take 2 t = ''0X'') \<and> (\<exists>n. denotes 16 (drop 2 t) n \<and> n < 2 ^ 64)) \<or>
        (take 2 t \<noteq> ''0x'' \<and> take 2 t \<noteq> ''0X'' \<and> (\<exists>n. denotes 10 t n \<and> n < 2 ^ 64))
     then \<exists>v. fst (resolveDebuggerValue_order order c t) = Inr (v, None)
     else \<exists>v e. fst (resolveDebuggerValue_order order c t) = Inr (v, Some e))"
  proof cases
    case name
    then have "t \<in> snd ` set registerMap"
      by force
    with reg [OF name, of c] show ?thesis
      by simp
  next
    case hex
    obtain v e where p: "ParseUint (drop 2 t) 16 = (v, e)"
      by (cases "ParseUint (drop 2 t) 16")
    have "e = None \<longleftrightarrow> (\<exists>n. denotes 16 (drop 2 t) n \<and> n < 2 ^ 64)"
      using ParseUint_succeeds_iff [of 16 "drop 2 t"] p by simp
    with hex resolve_hex [OF assms hex, of c] p show ?thesis
      by (cases e) auto
  next
    case dec
    obtain v e where p: "ParseUint t 10 = (v, e)"
      by (cases "ParseUint t 10")
    have "e = None \<longleftrightarrow> (\<exists>n. denotes 10 t n \<and> n < 2 ^ 64)"
      using ParseUint_succeeds_iff [of 10 t] p by simp
    with dec resolve_decimal [OF assms dec, of c] p show ?thesis
      by (cases e) auto
  qed
  show ?thesis
  proof (intro conjI allI impI)
    show "length registerMap = 18" by (fact registerMap_length)
    show "distinct (map snd registerMap)" by (fact registerMap_names)
    show "resolveDebuggerValue_order order c t = (Inr (regfile c reg, None), c)"
      if "(reg, t) \<in> set registerMap" for reg
      using that by (rule reg)
    show "resolveDebuggerValue_order order c t = (Inr (ParseUint (drop 2 t) 16), c)"
      if "t \<notin> snd ` set registerMap \<and> (take 2 t = ''0x'' \<or> take 2 t = ''0X'')"
      using that hex by blast
    show "resolveDebuggerValue_order order c t = (Inr (ParseUint t 10), c)"
      if "t \<notin> snd ` set registerMap \<and> take 2 t \<noteq> ''0x'' \<and> take 2 t \<noteq> ''0X''"
      using that dec by blast
    show "resolveDebuggerValue_order order c ''0x10'' = (Inr (16, None), c)" by (fact ex1)
    show "resolveDebuggerValue_order order c ''16'' = (Inr (16, None), c)" by (fact ex2)
    show "resolveDebuggerValue_order order c ''rsp'' = (Inr (regfile c rsp, None), c)"
      by (fact ex3)
    show "snd (resolveDebuggerValue_order order c t) = c"
      using last by blast
    show "if t \<in> snd ` set registerMap \<or>
        ((take 2 t = ''0x'' \<or> take 2 t = ''0X'') \<and> (\<exists>n. denotes 16 (drop 2 t) n \<and> n < 2 ^ 64)) \<or>
        (take 2 t \<noteq> ''0x'' \<and> take 2 t \<noteq> ''0X'' \<and> (\<exists>n. denotes 10 t n \<and> n < 2 ^ 64))
     then \<exists>v. fst (resolveDebuggerValue_order order c t) = Inr (v, None)
     else \<exists>v e. fst (resolveDebuggerValue_order order c t) = Inr (v, Some e)"
      using last by blast
  qed
qed

theorem resolveDebuggerValue_three_tiers_witness:
  "set (rev registerMap) = set registerMap \<and>
   (rsp, ''rsp'') \<in> set registerMap \<and>
   resolveDebuggerValue_order (rev registerMap)
       \<lparr>proc = None, mem = [], regfile = (\<lambda>r. 0)(rsp := 0x7FF8)\<rparr> ''rsp''
     = (Inr (0x7FF8, None), \<lparr>proc = None, mem = [], regfile = (\<lambda>r. 0)(rsp := 0x7FF8)\<rparr>) \<and>
   ''0x1F'' \<notin> snd ` set registerMap \<and> take 2 ''0x1F'' = ''0x'' \<and>
   resolveDebuggerValue_order (rev registerMap)
       \<lparr>proc = None, mem = [], regfile = (\<lambda>r. 0)(rsp := 0x7FF8)\<rparr> ''0x1F''
     = (Inr (31, None), \<lparr>proc = None, mem = [], regfile = (\<lambda>r. 0)(rsp := 0x7FF8)\<rparr>) \<and>
   ''42'' \<notin> snd ` set registerMap \<and> take 2 ''42'' \<noteq> ''0x'' \<and> take 2 ''42'' \<noteq> ''0X'' \<and>
   resolveDebuggerValue_order (rev registerMap)
       \<lparr>proc = None, mem = [], regfile = (\<lambda>r. 0)(rsp := 0x7FF8)\<rparr> ''42''
     = (Inr (42, None), \<lparr>proc = None, mem = [], regfile = (\<lambda>r. 0)(rsp := 0x7FF8)\<rparr>) \<and>
   ''0xZZ'' \<notin> snd ` set registerMap \<and> take 2 ''0xZZ'' = ''0x'' \<and>
   resolveDebuggerValue_order (rev registerMap)
       \<lparr>proc = None, mem = [], regfile = (\<lambda>r. 0)(rsp := 0x7FF8)\<rparr> ''0xZZ''
     = (Inr (0, Some ErrSyntax), \<lparr>proc = None, mem = [], regfile = (\<lambda>r. 0)(rsp := 0x7FF8)\<rparr>)"
proof -
  let ?c = "\<lparr>proc = None, mem = [], regfile = (\<lambda>r. 0)(rsp := 0x7FF8)\<rparr>"
  have o: "set (rev registerMap) = set registerMap"
    by simp
  have n: "(rsp, ''rsp'') \<in> set registerMap" "''0x1F'' \<notin> snd ` set registerMap"
    "''42'' \<notin> snd ` set registerMap" "''0xZZ'' \<notin> snd ` set registerMap"
    by (simp_all add: registerMap_def)
  have p1: "ParseUint ''1F'' 16 = (31, None)"
    by code_simp
  have p2: "ParseUint ''42'' 10 = (42, None)"
    by code_simp
  have p3: "ParseUint ''ZZ'' 16 = (0, Some ErrSyntax)"
    by code_simp
  from resolveDebuggerValue_three_tiers [OF o, of "''rsp''" ?c]
    resolveDebuggerValue_three_tiers [OF o, of "''0x1F''" ?c]
    resolveDebuggerValue_three_tiers [OF o, of "''42''" ?c]
    resolveDebuggerValue_three_tiers [OF o, of "''0xZZ''" ?c] n
  show ?thesis
    by (simp add: p1 p2 p3)
qed

end
